theory Spec2Isabelle
  imports Main "HOL-Library.AList" "HOL-Library.Char_ord" "HOL-Library.List_Lexorder"
    "HOL-Library.Multiset"
begin

section \<open>Python values, dictionaries and errors\<close>

text \<open>
  The values a toggle dictionary holds: annotation data is a string, or a list of strings
  for a multi-value annotation; the line number is an integer; \<open>PNone\<close> is Python's
  \<open>None\<close>, which \<open>dict.get\<close> returns for a missing key.
\<close>

datatype pyval = PNone | PStr string | PInt int | PList "string list"

datatype py_error = KeyError string | TypeError | ValueError

text \<open>
  A toggle is a dictionary that is only ever looked up, so it is a map. The dictionary of
  all toggles is iterated (\<open>sorted(toggles)\<close>), so it keeps its keys in insertion order:
  an association list, whose keys are distinct in a Python dictionary.
\<close>

type_synonym toggle = "string \<rightharpoonup> pyval"

type_synonym toggles = "(string \<times> toggle) list"

definition dict_get :: "toggle \<Rightarrow> string \<Rightarrow> pyval \<Rightarrow> pyval" where
  "dict_get d k dflt = (case d k of None \<Rightarrow> dflt | Some v \<Rightarrow> v)"

definition getitem :: "toggle \<Rightarrow> string \<Rightarrow> py_error + pyval" where
  "getitem d k = (case d k of None \<Rightarrow> Inl (KeyError k) | Some v \<Rightarrow> Inr v)"

subsection \<open>Formatting: \<open>str()\<close>, \<open>str.title()\<close>, \<open>str.replace()\<close>\<close>

definition digit_char :: "nat \<Rightarrow> char" where
  "digit_char n = char_of (48 + n)"

fun dec_digits :: "nat \<Rightarrow> string" where
  "dec_digits n =
     (if n < 10 then [digit_char n] else dec_digits (n div 10) @ [digit_char (n mod 10)])"

declare dec_digits.simps [simp del]

definition str_int :: "int \<Rightarrow> string" where
  "str_int i = (if i < 0 then CHR ''-'' # dec_digits (nat (- i)) else dec_digits (nat i))"

fun join_comma :: "string list \<Rightarrow> string" where
  "join_comma [] = []"
| "join_comma [x] = x"
| "join_comma (x # y # ys) = x @ '', '' @ join_comma (y # ys)"

text \<open>
  \<open>py_str repr v\<close> is \<open>str(v)\<close>, which \<open>str.format\<close> and an f-string apply to each
  field. The \<open>str\<close> of a list shows the \<open>repr\<close> of each element; the \<open>repr\<close> of a
  string (quoting and escaping, by Unicode printability) is a Python builtin and is taken
  as the parameter \<open>repr\<close>.
\<close>

fun py_str :: "(string \<Rightarrow> string) \<Rightarrow> pyval \<Rightarrow> string" where
  "py_str repr PNone = ''None''"
| "py_str repr (PStr s) = s"
| "py_str repr (PInt i) = str_int i"
| "py_str repr (PList xs) = ''['' @ join_comma (map repr xs) @ '']''"

definition is_lower :: "char \<Rightarrow> bool" where
  "is_lower c = (97 \<le> (of_char c :: nat) \<and> (of_char c :: nat) \<le> 122)"

definition is_upper :: "char \<Rightarrow> bool" where
  "is_upper c = (65 \<le> (of_char c :: nat) \<and> (of_char c :: nat) \<le> 90)"

definition to_upper :: "char \<Rightarrow> char" where
  "to_upper c = (if is_lower c then char_of ((of_char c :: nat) - 32) else c)"

definition to_lower :: "char \<Rightarrow> char" where
  "to_lower c = (if is_upper c then char_of ((of_char c :: nat) + 32) else c)"

text \<open>
  \<open>str.title()\<close> on ASCII text: a cased character is upper case when the character
  before it is not cased and lower case otherwise. The flag is "the previous character is
  cased".
\<close>

fun title_from :: "bool \<Rightarrow> string \<Rightarrow> string" where
  "title_from prev [] = []"
| "title_from prev (c # cs) =
     (if is_lower c then (if prev then c else to_upper c) # title_from True cs
      else if is_upper c then (if prev then to_lower c else c) # title_from True cs
      else c # title_from False cs)"

definition str_title :: "string \<Rightarrow> string" where
  "str_title s = title_from False s"

definition replace_char :: "char \<Rightarrow> char \<Rightarrow> string \<Rightarrow> string" where
  "replace_char old new s = map (\<lambda>c. if c = old then new else c) s"

section \<open>docutils nodes\<close>

datatype kind = Section | Title | Paragraph | Literal | Reference | Warning

text \<open>
  A node is a text leaf or an element with its class, its \<open>ids\<close> attribute, its
  \<open>refuri\<close> attribute (only a reference has one) and its children.
\<close>

datatype node = Text string | Element kind "string list" "string option" "node list"

fun node_kind :: "node \<Rightarrow> kind option" where
  "node_kind (Text t) = None"
| "node_kind (Element k i r cs) = Some k"

fun node_ids :: "node \<Rightarrow> string list" where
  "node_ids (Text t) = []"
| "node_ids (Element k i r cs) = i"

fun node_refuri :: "node \<Rightarrow> string option" where
  "node_refuri (Text t) = None"
| "node_refuri (Element k i r cs) = r"

fun node_children :: "node \<Rightarrow> node list" where
  "node_children (Text t) = []"
| "node_children (Element k i r cs) = cs"

text \<open>
  docutils' \<open>TextElement(rawsource, text, *children, **attributes)\<close>: the text becomes a
  first \<open>Text\<close> child unless it is the empty string. \<open>Text(data)\<close> holds \<open>str(data)\<close>.
  title, paragraph, literal and reference are text elements; section and warning are plain
  elements, whose constructor takes the children directly.
\<close>

definition TextElement ::
  "(string \<Rightarrow> string) \<Rightarrow> kind \<Rightarrow> pyval \<Rightarrow> node list \<Rightarrow> string list \<Rightarrow> string option \<Rightarrow> node" where
  "TextElement repr k text cs i r =
     Element k i r ((if text \<noteq> PStr [] then [Text (py_str repr text)] else []) @ cs)"

section \<open>The directive\<close>

text \<open>The host configuration values the directive reads from \<open>self.env.config\<close>.\<close>

record config =
  featuretoggles_repo_url :: string
  featuretoggles_repo_version :: string

definition sentinels :: "pyval list" where
  "sentinels = [PNone, PStr ''None'', PStr ''n/a'', PStr ''N/A'']"

definition optional_attrs :: "string list" where
  "optional_attrs = [''creation_date'', ''target_removal_date'', ''implementation'', ''use_cases'']"

definition toggle_key :: "string \<Rightarrow> string" where
  "toggle_key opt = ''.. toggle_'' @ opt @ '':''"

text \<open>The body of the \<open>for opt in optional_attrs\<close> loop, for one \<open>opt\<close>.\<close>

definition optional_nodes :: "(string \<Rightarrow> string) \<Rightarrow> string \<Rightarrow> toggle \<Rightarrow> string \<Rightarrow> node list" where
  "optional_nodes repr toggle_name toggle opt =
     (if dict_get toggle (toggle_key opt) PNone \<notin> set sentinels
      then [TextElement repr Paragraph
              (PStr (replace_char CHR ''_'' CHR '' '' (str_title opt) @ '': '' @
                     py_str repr (dict_get toggle (toggle_key opt) PNone)))
              [] [opt @ ''-'' @ toggle_name] None]
      else [])"

definition warning_nodes :: "(string \<Rightarrow> string) \<Rightarrow> string \<Rightarrow> toggle \<Rightarrow> node list" where
  "warning_nodes repr toggle_name toggle =
     (if dict_get toggle ''.. toggle_warning:'' PNone \<notin> set sentinels
      then [Element Warning [''warning-'' @ toggle_name] None
              [TextElement repr Paragraph (dict_get toggle ''.. toggle_warning:'' PNone) [] [] None]]
      else [])"

text \<open>
  One pass of the loop of \<open>iter_nodes\<close>: the section of one toggle. \<open>quote_value\<close> is
  imported from a module of the package that is not among the sources; it is the parameter
  \<open>quote_value\<close>, and it may raise. \<open>toggle["filename"]\<close> and \<open>toggle["line_number"]\<close>
  raise \<open>KeyError\<close> on a missing key, in the order the source evaluates them.
\<close>

definition toggle_section ::
  "(pyval \<Rightarrow> py_error + string) \<Rightarrow> (string \<Rightarrow> string) \<Rightarrow> config \<Rightarrow> string \<Rightarrow> toggle
     \<Rightarrow> py_error + node" where
  "toggle_section quote_value repr cfg toggle_name toggle =
     (let toggle_default_value = dict_get toggle ''.. toggle_default:'' (PStr ''Not defined'') in
      case quote_value toggle_default_value of
        Inl e \<Rightarrow> Inl e
      | Inr quoted \<Rightarrow>
     (let toggle_default_node = TextElement repr Literal (PStr quoted) [] [] None;
          title_node = TextElement repr Title (PStr toggle_name) [] [''name-'' @ toggle_name] None;
          default_par = TextElement repr Paragraph (PStr ''Default: '') [toggle_default_node]
                          [''default-'' @ toggle_name] None in
      case getitem toggle ''filename'' of
        Inl e \<Rightarrow> Inl e
      | Inr filename \<Rightarrow>
     (case getitem toggle ''line_number'' of
        Inl e \<Rightarrow> Inl e
      | Inr line_number \<Rightarrow>
     (let reference = TextElement repr Reference
            (PStr (py_str repr filename @ '' (line '' @ py_str repr line_number @ '')''))
            [] []
            (Some (featuretoggles_repo_url cfg @ ''/blob/'' @ featuretoggles_repo_version cfg @
                   ''/'' @ py_str repr filename @ ''#L'' @ py_str repr line_number));
          source_par = TextElement repr Paragraph (PStr ''Source: '') [reference]
                         [''source-'' @ toggle_name] None;
          description_par = TextElement repr Paragraph
            (PStr (''Desc: '' @ py_str repr (dict_get toggle ''.. toggle_description:'' (PStr ''NaN''))))
            [] [''description-'' @ toggle_name] None in
      Inr (Element Section [''featuretoggle-'' @ toggle_name] None
             ([title_node, default_par, source_par, description_par] @
              warning_nodes repr toggle_name toggle @
              concat (map (optional_nodes repr toggle_name toggle) optional_attrs)))))))"

text \<open>
  \<open>iter_nodes\<close> over the sorted names, collected by \<open>run\<close> with \<open>list(...)\<close>: an exception
  in any pass is the result of the whole call. \<open>toggles\<close> is what \<open>find_feature_toggles\<close>
  returned; \<open>toggles[toggle_name]\<close> cannot fail for a key of the dictionary.
\<close>

fun iter_nodes ::
  "(pyval \<Rightarrow> py_error + string) \<Rightarrow> (string \<Rightarrow> string) \<Rightarrow> config \<Rightarrow> toggles \<Rightarrow> string list
     \<Rightarrow> py_error + node list" where
  "iter_nodes quote_value repr cfg toggles [] = Inr []"
| "iter_nodes quote_value repr cfg toggles (toggle_name # names) =
     (case map_of toggles toggle_name of
        None \<Rightarrow> Inl (KeyError toggle_name)
      | Some toggle \<Rightarrow>
          (case toggle_section quote_value repr cfg toggle_name toggle of
             Inl e \<Rightarrow> Inl e
           | Inr sec \<Rightarrow>
               (case iter_nodes quote_value repr cfg toggles names of
                  Inl e \<Rightarrow> Inl e
                | Inr secs \<Rightarrow> Inr (sec # secs))))"

definition run ::
  "(pyval \<Rightarrow> py_error + string) \<Rightarrow> (string \<Rightarrow> string) \<Rightarrow> config \<Rightarrow> toggles \<Rightarrow> py_error + node list" where
  "run quote_value repr cfg toggles = iter_nodes quote_value repr cfg toggles (sort (map fst toggles))"

section \<open>Observations on the rendered nodes\<close>

text \<open>
  The children of a section that carry a given id, and the hyperlink targets anywhere below a
  node.
\<close>

definition with_id :: "string \<Rightarrow> node \<Rightarrow> node list" where
  "with_id i s = filter (\<lambda>c. i \<in> set (node_ids c)) (node_children s)"

fun refuris :: "node \<Rightarrow> string list" where
  "refuris (Text t) = []"
| "refuris (Element k i r cs) = (case r of None \<Rightarrow> [] | Some u \<Rightarrow> [u]) @ concat (map refuris cs)"


text \<open>An attribute that is absent from the toggle, or holds one of the sentinels.\<close>

definition absent_or_sentinel :: "toggle \<Rightarrow> string \<Rightarrow> bool" where
  "absent_or_sentinel t k = (case t k of None \<Rightarrow> True | Some v \<Rightarrow> v \<in> set sentinels)"

section \<open>A sample input\<close>

text \<open>
  Two toggles, in the order the scan found them. The second has no default, no description and
  no optional attribute but a creation date; the first has a warning that is a sentinel.
\<close>

definition example_config :: config where
  "example_config = \<lparr>featuretoggles_repo_url = ''https://github.com/openedx/myrepo'',
                      featuretoggles_repo_version = ''master''\<rparr>"

definition example_quote_value :: "pyval \<Rightarrow> py_error + string" where
  "example_quote_value v = (case v of PStr s \<Rightarrow> Inr (''<'' @ s @ ''>'') | _ \<Rightarrow> Inl TypeError)"

definition example_repr :: "string \<Rightarrow> string" where
  "example_repr s = ''<'' @ s @ ''>''"

definition toggle_x :: toggle where
  "toggle_x = [''.. toggle_name:'' \<mapsto> PStr ''ENABLE_X'', ''filename'' \<mapsto> PStr ''toggles.py'',
               ''line_number'' \<mapsto> PInt 2, ''.. toggle_default:'' \<mapsto> PStr ''False'',
               ''.. toggle_description:'' \<mapsto> PStr ''enables X'',
               ''.. toggle_warning:'' \<mapsto> PStr ''n/a'',
               ''.. toggle_use_cases:'' \<mapsto> PStr ''open_edx'']"

definition toggle_y :: toggle where
  "toggle_y = [''.. toggle_name:'' \<mapsto> PStr ''DISABLE_Y'', ''filename'' \<mapsto> PStr ''app/y.py'',
               ''line_number'' \<mapsto> PInt 10, ''.. toggle_warning:'' \<mapsto> PStr ''Do not use'',
               ''.. toggle_creation_date:'' \<mapsto> PStr ''2020-01-01'']"

definition example_toggles :: toggles where
  "example_toggles = [(''ENABLE_X'', toggle_x), (''DISABLE_Y'', toggle_y)]"

text \<open>The sections the directive renders for them, in the order it returns them.\<close>

definition example_section_y :: node where
  "example_section_y =
     Element Section [''featuretoggle-DISABLE_Y''] None
       [Element Title [''name-DISABLE_Y''] None [Text ''DISABLE_Y''],
        Element Paragraph [''default-DISABLE_Y''] None
          [Text ''Default: '', Element Literal [] None [Text ''<Not defined>'']],
        Element Paragraph [''source-DISABLE_Y''] None
          [Text ''Source: '',
           Element Reference [] (Some ''https://github.com/openedx/myrepo/blob/master/app/y.py#L10'')
             [Text ''app/y.py (line 10)'']],
        Element Paragraph [''description-DISABLE_Y''] None [Text ''Desc: NaN''],
        Element Warning [''warning-DISABLE_Y''] None [Element Paragraph [] None [Text ''Do not use'']],
        Element Paragraph [''creation_date-DISABLE_Y''] None [Text ''Creation Date: 2020-01-01'']]"

definition example_section_x :: node where
  "example_section_x =
     Element Section [''featuretoggle-ENABLE_X''] None
       [Element Title [''name-ENABLE_X''] None [Text ''ENABLE_X''],
        Element Paragraph [''default-ENABLE_X''] None
          [Text ''Default: '', Element Literal [] None [Text ''<False>'']],
        Element Paragraph [''source-ENABLE_X''] None
          [Text ''Source: '',
           Element Reference [] (Some ''https://github.com/openedx/myrepo/blob/master/toggles.py#L2'')
             [Text ''toggles.py (line 2)'']],
        Element Paragraph [''description-ENABLE_X''] None [Text ''Desc: enables X''],
        Element Paragraph [''use_cases-ENABLE_X''] None [Text ''Use Cases: open_edx'']]"

section \<open>The record assembler\<close>

text \<open>
  Modelled from the spec: the scanner and the assembler, which the directive reaches through
  \<open>find_annotations\<close>, are not among the sources. Section 3 gives every tag of the grammar a
  cardinality, "single-value vs multi-value/list".
\<close>

datatype cardinality = SingleValue | MultiValue

text \<open>
  Modelled from the spec: \<open>AnnotationConfig\<close> of section 3, "a name tag that starts a new record,
  and zero-or-more attribute tags", "per-tag cardinality", and "the comment-prefix syntax used to
  recognize an annotation line". A tag the grammar gives no cardinality is single-valued.
\<close>

record AnnotationConfig =
  name_tag :: string
  attribute_tags :: "(string \<times> cardinality) list"
  comment_prefix :: string

text \<open>
  Modelled from the spec: \<open>RawAnnotation\<close> of section 3, "one matched line - tag, raw text
  value, source file path (relative), 1-based line number".
\<close>

record RawAnnotation =
  tag :: string
  raw_value :: string
  src_file :: string
  src_line :: nat

text \<open>
  Modelled from the spec: what a Record holds for a tag, "value (or ordered list of values for
  multi-value tags)" (section 3).
\<close>

datatype attr_value = One string | Many "string list"

text \<open>
  Modelled from the spec: \<open>Record\<close> of section 3, "a mapping from tag to value [...], plus
  provenance (file, line number of the defining name tag)", "keyed by entity name". The mapping
  from tag to value is an association list, which \<open>map_of\<close> reads.
\<close>

record EntityRecord =
  rec_name :: string
  attrs :: "(string \<times> attr_value) list"
  prov_file :: string
  prov_line :: nat

text \<open>
  Modelled from the spec: the two structural errors of the assembler (sections 4.2 and 7).
  \<open>OrphanAttribute\<close> holds the tuple that had no preceding name tag. \<open>DuplicateName\<close> holds the
  name, the place of the duplicate and the place of the first definition, as in the example
  \<open>DuplicateName("ENABLE_X", at=10, original_at=2)\<close> of section 8.
\<close>

datatype diagnostic =
    OrphanAttribute RawAnnotation
  | DuplicateName string "string \<times> nat" "string \<times> nat"

text \<open>
  Modelled from the spec: the states of the machine of section 4.2, "AwaitingName \<rightarrow> InRecord";
  \<open>InRecord\<close> holds the name of the open record. The spec gives no state for what follows a
  duplicate name tag. There "the record keeps its first definition", and in the example of
  section 8 the mapping "still has default/description from line 2-4 only": the attributes that
  follow the duplicate are not folded into the record. They are no orphans either, an orphan
  being an "attribute tag with no preceding name tag" (section 7). \<open>InDuplicate\<close> is that
  reading: up to the next name tag, attributes are dropped.
\<close>

datatype asm_state = AwaitingName | InRecord string | InDuplicate

text \<open>
  Modelled from the spec: what the assembler holds during one pass, its state, "the accumulating
  record mapping" (section 5) and the "list of accumulated structural errors" (section 4.2). The
  mapping keeps the records in the order their names were first seen.
\<close>

record assembler =
  state :: asm_state
  records :: "(string \<times> EntityRecord) list"
  diagnostics :: "diagnostic list"

text \<open>
  Modelled from the spec: a tuple is a name tag when its tag is the grammar's name tag; any
  other tuple is an attribute tag.
\<close>

definition is_name :: "AnnotationConfig \<Rightarrow> RawAnnotation \<Rightarrow> bool" where
  "is_name cfg a = (tag a = name_tag cfg)"

text \<open>
  Modelled from the spec: the cardinality the grammar gives a tag (section 3).
\<close>

definition is_multi :: "AnnotationConfig \<Rightarrow> string \<Rightarrow> bool" where
  "is_multi cfg t = (map_of (attribute_tags cfg) t = Some MultiValue)"

text \<open>
  Modelled from the spec: the machine starts in \<open>AwaitingName\<close> with no record and no error
  (section 4.2).
\<close>

definition initial :: assembler where
  "initial = \<lparr>state = AwaitingName, records = [], diagnostics = []\<rparr>"

text \<open>
  Modelled from the spec: "open a new Record with that name and provenance = (file, line) of
  this tag" (section 4.2).
\<close>

definition new_record :: "RawAnnotation \<Rightarrow> EntityRecord" where
  "new_record a = \<lparr>rec_name = raw_value a, attrs = [], prov_file = src_file a, prov_line = src_line a\<rparr>"

text \<open>
  Modelled from the spec: the values a multi-value tag has gathered so far in a record, to which
  the next one is appended.
\<close>

definition prior_values :: "EntityRecord \<Rightarrow> string \<Rightarrow> string list" where
  "prior_values r t = (case map_of (attrs r) t of Some (Many vs) \<Rightarrow> vs | _ \<Rightarrow> [])"

text \<open>
  Modelled from the spec: "subsequent non-name tags are folded into the currently open Record -
  single-value tags overwrite (last occurrence wins [...]), multi-value tags append, preserving
  file order" (section 4.2). A second occurrence of a single-value tag overwrites and is not
  reported, the lenient choice the spec allows.
\<close>

definition fold_attr :: "AnnotationConfig \<Rightarrow> RawAnnotation \<Rightarrow> EntityRecord \<Rightarrow> EntityRecord" where
  "fold_attr cfg a r =
     r\<lparr>attrs := AList.update (tag a)
                  (if is_multi cfg (tag a) then Many (prior_values r (tag a) @ [raw_value a])
                   else One (raw_value a))
                  (attrs r)\<rparr>"

text \<open>
  Modelled from the spec: one transition of the machine of section 4.2.
  On a name tag: "if the name has not been seen before, open a new Record [...]; transition to
  InRecord. If the name has already been seen (duplicate), it is a structural error - the
  duplicate's provenance and name are recorded in the error, and the record keeps its first
  definition" (first-wins, the policy the spec recommends).
  On an attribute tag: in \<open>AwaitingName\<close> it is an orphan, "reported but does not abort the
  whole scan" (the errors are accumulated, section 7); in \<open>InRecord\<close> it is folded into the open
  record; after a duplicate name tag it is dropped.
\<close>

definition step :: "AnnotationConfig \<Rightarrow> assembler \<Rightarrow> RawAnnotation \<Rightarrow> assembler" where
  "step cfg st a =
     (if is_name cfg a then
        (case map_of (records st) (raw_value a) of
           Some first \<Rightarrow>
             st\<lparr>state := InDuplicate,
                diagnostics := diagnostics st @
                  [DuplicateName (raw_value a) (src_file a, src_line a) (prov_file first, prov_line first)]\<rparr>
         | None \<Rightarrow>
             st\<lparr>state := InRecord (raw_value a),
                records := records st @ [(raw_value a, new_record a)]\<rparr>)
      else
        (case state st of
           AwaitingName \<Rightarrow> st\<lparr>diagnostics := diagnostics st @ [OrphanAttribute a]\<rparr>
         | InRecord n \<Rightarrow> st\<lparr>records := AList.map_entry n (fold_attr cfg a) (records st)\<rparr>
         | InDuplicate \<Rightarrow> st))"

text \<open>
  Modelled from the spec: the assembler's contract, "consume the RawAnnotation sequence" and end
  in "Done, yielding the completed mapping and the list of accumulated structural errors"
  (section 4.2). It is a fold over the stream, so it returns on every stream.
\<close>

definition assemble ::
  "AnnotationConfig \<Rightarrow> RawAnnotation list \<Rightarrow> (string \<times> EntityRecord) list \<times> diagnostic list" where
  "assemble cfg s =
     (let st = foldl (step cfg) initial s in (records st, diagnostics st))"

section \<open>Observations on streams and records\<close>

text \<open>
  Modelled from the spec: the entity names of a stream, one for each name tag, in stream order
  ("exactly one Record per distinct name tag", section 8).
\<close>

definition name_values :: "AnnotationConfig \<Rightarrow> RawAnnotation list \<Rightarrow> string list" where
  "name_values cfg s = map raw_value (filter (is_name cfg) s)"

text \<open>
  Modelled from the spec: the values the tuples of a tag carry in a part of the stream, in
  stream order.
\<close>

definition values_of :: "string \<Rightarrow> RawAnnotation list \<Rightarrow> string list" where
  "values_of t blk = map raw_value (filter (\<lambda>b. tag b = t) blk)"

text \<open>
  Modelled from the spec: what a record is to hold for a tag, given the attribute tuples between
  its name tag and the next one: nothing when the tag does not occur there, all the values "in
  file order" for a multi-value tag, "the last-occurring value" for a single-value tag
  (sections 4.2 and 8).
\<close>

definition expected_attr :: "AnnotationConfig \<Rightarrow> RawAnnotation list \<Rightarrow> string \<Rightarrow> attr_value option" where
  "expected_attr cfg blk t =
     (case values_of t blk of
        [] \<Rightarrow> None
      | v # vs \<Rightarrow> Some (if is_multi cfg t then Many (v # vs) else One (last (v # vs))))"

text \<open>
  Modelled from the spec: well-formed input (section 8), "every attribute tag preceded by a name
  tag", which is to say that the stream does not start with an attribute tag, and "no duplicate
  names".
\<close>

definition well_formed :: "AnnotationConfig \<Rightarrow> RawAnnotation list \<Rightarrow> bool" where
  "well_formed cfg s =
     ((case s of [] \<Rightarrow> True | a # _ \<Rightarrow> is_name cfg a) \<and> distinct (name_values cfg s))"

text \<open>
  Modelled from the spec: the diagnostics that report a duplicate of the name \<open>X\<close>.
\<close>

definition is_duplicate_of :: "string \<Rightarrow> diagnostic \<Rightarrow> bool" where
  "is_duplicate_of X d = (case d of DuplicateName n _ _ \<Rightarrow> n = X | OrphanAttribute _ \<Rightarrow> False)"

text \<open>
  Modelled from the spec: the diagnostics that report an orphan attribute.
\<close>

definition is_orphan :: "diagnostic \<Rightarrow> bool" where
  "is_orphan d = (case d of OrphanAttribute _ \<Rightarrow> True | DuplicateName _ _ _ \<Rightarrow> False)"

text \<open>
  Modelled from the spec: the values held for one tag, a single one or a list.
\<close>

definition values_in :: "attr_value \<Rightarrow> string list" where
  "values_in v = (case v of One x \<Rightarrow> [x] | Many xs \<Rightarrow> xs)"

text \<open>
  Modelled from the spec: all the values a record holds, over all its tags.
\<close>

definition record_values :: "EntityRecord \<Rightarrow> string list" where
  "record_values r = concat (map (\<lambda>p. values_in (snd p)) (attrs r))"

text \<open>
  Modelled from the spec: the values the attribute tuples of a stream carry.
\<close>

definition attribute_values :: "AnnotationConfig \<Rightarrow> RawAnnotation list \<Rightarrow> string list" where
  "attribute_values cfg s = map raw_value (filter (\<lambda>b. \<not> is_name cfg b) s)"

text \<open>
  Modelled from the spec: a name tag of the entity \<open>X\<close>.
\<close>

definition names_entity :: "AnnotationConfig \<Rightarrow> string \<Rightarrow> RawAnnotation \<Rightarrow> bool" where
  "names_entity cfg X b = (is_name cfg b \<and> raw_value b = X)"

text \<open>
  Modelled from the spec: the stream from the first name tag of \<open>X\<close> on; it is empty when
  the stream has none.
\<close>

definition from_name :: "AnnotationConfig \<Rightarrow> string \<Rightarrow> RawAnnotation list \<Rightarrow> RawAnnotation list" where
  "from_name cfg X s = dropWhile (\<lambda>b. \<not> names_entity cfg X b) s"

text \<open>
  Modelled from the spec: the attribute tuples "between one name tag and the next" (section 3),
  for the first name tag of \<open>X\<close>: those that follow it, up to the next name tag or the end of
  the stream.
\<close>

definition block_of :: "AnnotationConfig \<Rightarrow> string \<Rightarrow> RawAnnotation list \<Rightarrow> RawAnnotation list" where
  "block_of cfg X s = takeWhile (\<lambda>b. \<not> is_name cfg b) (tl (from_name cfg X s))"

section \<open>Sample streams\<close>

text \<open>
  The feature-toggle grammar, with one multi-value tag.
\<close>

definition example_grammar :: AnnotationConfig where
  "example_grammar =
     \<lparr>name_tag = ''.. toggle_name:'',
      attribute_tags = [(''.. toggle_default:'', SingleValue),
                        (''.. toggle_description:'', SingleValue),
                        (''.. toggle_use_cases:'', MultiValue)],
      comment_prefix = ''#''\<rparr>"

text \<open>
  A tuple of the file \<open>toggles.py\<close>.
\<close>

definition annotation :: "string \<Rightarrow> string \<Rightarrow> nat \<Rightarrow> RawAnnotation" where
  "annotation t v l = \<lparr>tag = t, raw_value = v, src_file = ''toggles.py'', src_line = l\<rparr>"

text \<open>
  The example of section 8 (lines 2 to 4), followed by more attributes of the same toggle and
  by a second toggle.
\<close>

definition well_formed_stream :: "RawAnnotation list" where
  "well_formed_stream =
     [annotation ''.. toggle_name:'' ''ENABLE_X'' 2,
      annotation ''.. toggle_default:'' ''False'' 3,
      annotation ''.. toggle_description:'' ''enables X'' 4,
      annotation ''.. toggle_use_cases:'' ''open_edx'' 5,
      annotation ''.. toggle_default:'' ''True'' 6,
      annotation ''.. toggle_use_cases:'' ''incremental_release'' 7,
      annotation ''.. toggle_name:'' ''DISABLE_Y'' 10,
      annotation ''.. toggle_default:'' ''False'' 11]"

text \<open>
  The second example of section 8: the name \<open>ENABLE_X\<close> again at line 10, here followed by
  an attribute and by another toggle.
\<close>

definition duplicate_stream :: "RawAnnotation list" where
  "duplicate_stream =
     [annotation ''.. toggle_name:'' ''ENABLE_X'' 2,
      annotation ''.. toggle_default:'' ''False'' 3,
      annotation ''.. toggle_description:'' ''enables X'' 4,
      annotation ''.. toggle_name:'' ''ENABLE_X'' 10,
      annotation ''.. toggle_default:'' ''True'' 11,
      annotation ''.. toggle_name:'' ''DISABLE_Y'' 20]"

text \<open>
  One toggle; the stream that follows the orphan attribute in the last example.
\<close>

definition named_stream :: "RawAnnotation list" where
  "named_stream =
     [annotation ''.. toggle_name:'' ''ENABLE_X'' 2,
      annotation ''.. toggle_default:'' ''False'' 3]"

section \<open>Lemmas on the directive\<close>

lemma guarded_getitem:
  "dict_get d k PNone \<notin> set sentinels \<Longrightarrow> getitem d k = Inr (dict_get d k PNone)"
  by (simp add: dict_get_def getitem_def sentinels_def split: option.splits)

lemma iter_nodes_Inr_iff:
  "iter_nodes qv rp cfg ts names = Inr secs \<longleftrightarrow>
   list_all2 (\<lambda>n s. \<exists>t. map_of ts n = Some t \<and> toggle_section qv rp cfg n t = Inr s) names secs"
proof (induction names arbitrary: secs)
  case Nil
  show ?case by auto
next
  case (Cons n names)
  show ?case
    by (cases secs) (auto simp: Cons.IH[symmetric] split: option.splits sum.splits)
qed

lemma run_Inr_iff:
  "run qv rp cfg ts = Inr secs \<longleftrightarrow>
   list_all2 (\<lambda>n s. \<exists>t. map_of ts n = Some t \<and> toggle_section qv rp cfg n t = Inr s)
     (sort (map fst ts)) secs"
  by (simp add: run_def iter_nodes_Inr_iff)

lemma toggle_section_Inr_iff:
  "toggle_section qv rp cfg n t = Inr s \<longleftrightarrow>
   (\<exists>q f l. qv (dict_get t ''.. toggle_default:'' (PStr ''Not defined'')) = Inr q \<and>
      t ''filename'' = Some f \<and> t ''line_number'' = Some l \<and>
      s = Element Section [''featuretoggle-'' @ n] None
            ([TextElement rp Title (PStr n) [] [''name-'' @ n] None,
              TextElement rp Paragraph (PStr ''Default: '') [TextElement rp Literal (PStr q) [] [] None]
                [''default-'' @ n] None,
              TextElement rp Paragraph (PStr ''Source: '')
                [TextElement rp Reference
                   (PStr (py_str rp f @ '' (line '' @ py_str rp l @ '')'')) [] []
                   (Some (featuretoggles_repo_url cfg @ ''/blob/'' @ featuretoggles_repo_version cfg @
                          ''/'' @ py_str rp f @ ''#L'' @ py_str rp l))]
                [''source-'' @ n] None,
              TextElement rp Paragraph
                (PStr (''Desc: '' @ py_str rp (dict_get t ''.. toggle_description:'' (PStr ''NaN''))))
                [] [''description-'' @ n] None] @
             warning_nodes rp n t @
             concat (map (optional_nodes rp n t) optional_attrs)))"
  unfolding toggle_section_def getitem_def Let_def
  by (auto split: sum.splits option.splits)

lemma refuris_warning_nodes: "concat (map refuris (warning_nodes rp n t)) = []"
  by (simp add: warning_nodes_def TextElement_def)

lemma refuris_optional_nodes: "concat (map refuris (optional_nodes rp n t opt)) = []"
  by (simp add: optional_nodes_def TextElement_def)

lemma refuris_optionals:
  "concat (map refuris (concat (map (optional_nodes rp n t) opts))) = []"
  by (induction opts) (simp_all add: refuris_optional_nodes)

lemma section_refuris:
  assumes "toggle_section qv rp cfg n t = Inr s"
  shows "\<exists>f l. t ''filename'' = Some f \<and> t ''line_number'' = Some l \<and>
          refuris s = [featuretoggles_repo_url cfg @ ''/blob/'' @ featuretoggles_repo_version cfg @
                          ''/'' @ py_str rp f @ ''#L'' @ py_str rp l]"
  using assms unfolding toggle_section_Inr_iff
  by (auto simp: TextElement_def refuris_warning_nodes refuris_optionals)

lemma filter_id_warning:
  "filter (\<lambda>c. i \<in> set (node_ids c)) (warning_nodes rp n t) =
     (if i = ''warning-'' @ n then warning_nodes rp n t else [])"
  by (simp add: warning_nodes_def)

lemma filter_id_optional:
  "filter (\<lambda>c. i \<in> set (node_ids c)) (optional_nodes rp n t opt) =
     (if i = opt @ ''-'' @ n then optional_nodes rp n t opt else [])"
  by (simp add: optional_nodes_def TextElement_def)

lemma with_id_section:
  assumes "toggle_section qv rp cfg n t = Inr s"
  shows "\<exists>q f l. qv (dict_get t ''.. toggle_default:'' (PStr ''Not defined'')) = Inr q \<and>
      t ''filename'' = Some f \<and> t ''line_number'' = Some l \<and>
      with_id i s =
        (if i = ''name-'' @ n then [TextElement rp Title (PStr n) [] [''name-'' @ n] None] else []) @
        (if i = ''default-'' @ n
         then [TextElement rp Paragraph (PStr ''Default: '') [TextElement rp Literal (PStr q) [] [] None]
                [''default-'' @ n] None] else []) @
        (if i = ''source-'' @ n
         then [TextElement rp Paragraph (PStr ''Source: '')
                [TextElement rp Reference
                   (PStr (py_str rp f @ '' (line '' @ py_str rp l @ '')'')) [] []
                   (Some (featuretoggles_repo_url cfg @ ''/blob/'' @ featuretoggles_repo_version cfg @
                          ''/'' @ py_str rp f @ ''#L'' @ py_str rp l))]
                [''source-'' @ n] None] else []) @
        (if i = ''description-'' @ n
         then [TextElement rp Paragraph
                (PStr (''Desc: '' @ py_str rp (dict_get t ''.. toggle_description:'' (PStr ''NaN''))))
                [] [''description-'' @ n] None] else []) @
        (if i = ''warning-'' @ n then warning_nodes rp n t else []) @
        concat (map (\<lambda>opt. if i = opt @ ''-'' @ n then optional_nodes rp n t opt else []) optional_attrs)"
proof -
  from assms obtain q f l where
    q: "qv (dict_get t ''.. toggle_default:'' (PStr ''Not defined'')) = Inr q" and
    f: "t ''filename'' = Some f" and l: "t ''line_number'' = Some l" and
    s: "s = Element Section [''featuretoggle-'' @ n] None
            ([TextElement rp Title (PStr n) [] [''name-'' @ n] None,
              TextElement rp Paragraph (PStr ''Default: '') [TextElement rp Literal (PStr q) [] [] None]
                [''default-'' @ n] None,
              TextElement rp Paragraph (PStr ''Source: '')
                [TextElement rp Reference
                   (PStr (py_str rp f @ '' (line '' @ py_str rp l @ '')'')) [] []
                   (Some (featuretoggles_repo_url cfg @ ''/blob/'' @ featuretoggles_repo_version cfg @
                          ''/'' @ py_str rp f @ ''#L'' @ py_str rp l))]
                [''source-'' @ n] None,
              TextElement rp Paragraph
                (PStr (''Desc: '' @ py_str rp (dict_get t ''.. toggle_description:'' (PStr ''NaN''))))
                [] [''description-'' @ n] None] @
             warning_nodes rp n t @
             concat (map (optional_nodes rp n t) optional_attrs))"
    unfolding toggle_section_Inr_iff by blast
  have ids: "\<And>k tx cs j r. node_ids (TextElement rp k tx cs j r) = j"
    by (simp add: TextElement_def)
  have "with_id i s = (if i = ''name-'' @ n then [TextElement rp Title (PStr n) [] [''name-'' @ n] None] else []) @
        (if i = ''default-'' @ n
         then [TextElement rp Paragraph (PStr ''Default: '') [TextElement rp Literal (PStr q) [] [] None]
                [''default-'' @ n] None] else []) @
        (if i = ''source-'' @ n
         then [TextElement rp Paragraph (PStr ''Source: '')
                [TextElement rp Reference
                   (PStr (py_str rp f @ '' (line '' @ py_str rp l @ '')'')) [] []
                   (Some (featuretoggles_repo_url cfg @ ''/blob/'' @ featuretoggles_repo_version cfg @
                          ''/'' @ py_str rp f @ ''#L'' @ py_str rp l))]
                [''source-'' @ n] None] else []) @
        (if i = ''description-'' @ n
         then [TextElement rp Paragraph
                (PStr (''Desc: '' @ py_str rp (dict_get t ''.. toggle_description:'' (PStr ''NaN''))))
                [] [''description-'' @ n] None] else []) @
        (if i = ''warning-'' @ n then warning_nodes rp n t else []) @
        concat (map (\<lambda>opt. if i = opt @ ''-'' @ n then optional_nodes rp n t opt else []) optional_attrs)"
    unfolding s with_id_def node_children.simps filter_append filter.simps ids filter_concat
      map_map comp_def filter_id_warning filter_id_optional
    by simp
  with q f l show ?thesis by blast
qed

lemma perm_map_of:
  assumes "mset ts' = mset ts" and "distinct (map fst ts)"
  shows "map_of ts' = map_of ts"
proof -
  have "mset (map fst ts') = mset (map fst ts)" using assms(1) by (metis mset_map)
  then have "distinct (map fst ts')" using assms(2) by (metis mset_eq_imp_distinct_iff)
  moreover have "set ts' = set ts" using assms(1) by (rule mset_eq_setD)
  ultimately show ?thesis using assms(2) by (simp add: map_of_inject_set)
qed

lemma perm_sort_keys:
  assumes "mset ts' = mset ts"
  shows "sort (map fst ts') = sort (map fst (ts :: toggles))"
proof -
  have "mset (map fst ts') = mset (map fst ts)" using assms by (metis mset_map)
  then show ?thesis by (metis sorted_list_of_multiset_mset)
qed

lemma iter_nodes_cong:
  "map_of ts' = map_of ts \<Longrightarrow> iter_nodes qv rp cfg ts' names = iter_nodes qv rp cfg ts names"
  by (induction names) (simp_all split: option.splits sum.splits)

lemma list_all2_choice:
  "(\<And>n. n \<in> set names \<Longrightarrow> \<exists>s. P n s) \<Longrightarrow> \<exists>secs. list_all2 P names secs"
proof (induction names)
  case Nil
  show ?case by simp
next
  case (Cons n names)
  have "\<exists>s. P n s" using Cons.prems by simp
  then obtain s where s: "P n s" ..
  have "\<exists>secs. list_all2 P names secs" using Cons.IH Cons.prems by simp
  then obtain secs where secs: "list_all2 P names secs" ..
  from s secs have "list_all2 P (n # names) (s # secs)" by simp
  then show ?case ..
qed

lemma run_total:
  assumes "\<And>n t. (n, t) \<in> set toggles \<Longrightarrow> \<exists>s. toggle_section qv rp cfg n t = Inr s"
  shows "\<exists>secs. run qv rp cfg toggles = Inr secs"
proof -
  have "\<exists>s. \<exists>t. map_of toggles n = Some t \<and> toggle_section qv rp cfg n t = Inr s"
    if "n \<in> set (sort (map fst toggles))" for n
  proof -
    from that have "n \<in> fst ` set toggles" by simp
    then have "map_of toggles n \<noteq> None" by (simp add: map_of_eq_None_iff)
    then obtain t where t: "map_of toggles n = Some t" by blast
    then have "(n, t) \<in> set toggles" by (rule map_of_SomeD)
    with assms t show ?thesis by blast
  qed
  then have "\<exists>secs. list_all2 (\<lambda>n s. \<exists>t. map_of toggles n = Some t \<and> toggle_section qv rp cfg n t = Inr s)
     (sort (map fst toggles)) secs"
    by (rule list_all2_choice)
  then show ?thesis by (simp add: run_Inr_iff)
qed

lemma absent_or_sentinel_iff:
  "absent_or_sentinel t k \<longleftrightarrow> dict_get t k PNone \<in> set sentinels"
  by (simp add: absent_or_sentinel_def dict_get_def sentinels_def split: option.splits)

lemma warning_nodes_Nil_iff:
  "warning_nodes rp n t = [] \<longleftrightarrow> absent_or_sentinel t ''.. toggle_warning:''"
  by (simp add: warning_nodes_def absent_or_sentinel_iff)

lemma optional_nodes_Nil_iff:
  "optional_nodes rp n t opt = [] \<longleftrightarrow> absent_or_sentinel t (toggle_key opt)"
  by (simp add: optional_nodes_def absent_or_sentinel_iff)

lemma section_ids:
  assumes "toggle_section qv rp cfg n t = Inr s"
  shows "node_ids s = [''featuretoggle-'' @ n] \<and> node_kind s = Some Section"
  using assms unfolding toggle_section_Inr_iff by auto

lemma with_id_warning:
  assumes "toggle_section qv rp cfg n t = Inr s"
  shows "with_id (''warning-'' @ n) s = warning_nodes rp n t"
  using with_id_section[OF assms, of "''warning-'' @ n"]
  by (auto simp: optional_attrs_def)

lemma with_id_optional:
  assumes "toggle_section qv rp cfg n t = Inr s" and "opt \<in> set optional_attrs"
  shows "with_id (opt @ ''-'' @ n) s = optional_nodes rp n t opt"
proof -
  from assms(2) consider "opt = ''creation_date''" | "opt = ''target_removal_date''"
    | "opt = ''implementation''" | "opt = ''use_cases''"
    by (auto simp: optional_attrs_def)
  then show ?thesis
  proof cases
    case 1
    show ?thesis using with_id_section[OF assms(1), of "''creation_date-'' @ n"]
      by (auto simp: 1 optional_attrs_def)
  next
    case 2
    show ?thesis using with_id_section[OF assms(1), of "''target_removal_date-'' @ n"]
      by (auto simp: 2 optional_attrs_def)
  next
    case 3
    show ?thesis using with_id_section[OF assms(1), of "''implementation-'' @ n"]
      by (auto simp: 3 optional_attrs_def)
  next
    case 4
    show ?thesis using with_id_section[OF assms(1), of "''use_cases-'' @ n"]
      by (auto simp: 4 optional_attrs_def)
  qed
qed

lemma with_id_description:
  assumes "toggle_section qv rp cfg n t = Inr s"
  shows "with_id (''description-'' @ n) s =
     [Element Paragraph [''description-'' @ n] None
        [Text (''Desc: '' @ py_str rp (dict_get t ''.. toggle_description:'' (PStr ''NaN'')))]]"
proof -
  have "with_id (''description-'' @ n) s =
     [TextElement rp Paragraph
        (PStr (''Desc: '' @ py_str rp (dict_get t ''.. toggle_description:'' (PStr ''NaN''))))
        [] [''description-'' @ n] None]"
    using with_id_section[OF assms, of "''description-'' @ n"]
    by (auto simp: optional_attrs_def)
  then show ?thesis by (simp add: TextElement_def)
qed

lemma example_run:
  "run example_quote_value example_repr example_config example_toggles =
     Inr [example_section_y, example_section_x]"
  by code_simp

lemma list_all2_map_eq:
  "list_all2 (\<lambda>x y. g y = f x) xs ys \<Longrightarrow> map g ys = map f xs"
  by (induction rule: list_all2_induct) simp_all

section \<open>The source hyperlink\<close>

text \<open>
  Claim C6. For every rendered toggle, the hyperlink of its section is exactly
  \<open><repo_url>/blob/<revision>/<file>#L<line>\<close>: the repository URL and the revision are the
  host configuration's, the file and the line are the toggle's \<open>filename\<close> and
  \<open>line_number\<close> as \<open>str.format\<close> writes them, and the section holds no other hyperlink.
  The sections are paired with the sorted toggle names.
\<close>

theorem source_link_uri_shape:
  assumes "run quote_value rp cfg toggles = Inr secs"
  shows "list_all2
     (\<lambda>toggle_name sec. \<exists>toggle filename line_number.
         map_of toggles toggle_name = Some toggle \<and>
         toggle ''filename'' = Some filename \<and> toggle ''line_number'' = Some line_number \<and>
         refuris sec =
           [featuretoggles_repo_url cfg @ ''/blob/'' @ featuretoggles_repo_version cfg @
            ''/'' @ py_str rp filename @ ''#L'' @ py_str rp line_number])
     (sort (map fst toggles)) secs"
proof -
  from assms have "list_all2
     (\<lambda>n s. \<exists>t. map_of toggles n = Some t \<and> toggle_section quote_value rp cfg n t = Inr s)
     (sort (map fst toggles)) secs"
    by (simp add: run_Inr_iff)
  then show ?thesis
    by (rule list_all2_mono) (blast dest: section_refuris)
qed

theorem source_link_uri_shape_witness:
  "run example_quote_value example_repr example_config example_toggles =
     Inr [example_section_y, example_section_x] \<and>
   list_all2
     (\<lambda>toggle_name sec. \<exists>toggle filename line_number.
         map_of example_toggles toggle_name = Some toggle \<and>
         toggle ''filename'' = Some filename \<and> toggle ''line_number'' = Some line_number \<and>
         refuris sec =
           [featuretoggles_repo_url example_config @ ''/blob/'' @ featuretoggles_repo_version example_config @
            ''/'' @ py_str example_repr filename @ ''#L'' @ py_str example_repr line_number])
     (sort (map fst example_toggles)) [example_section_y, example_section_x] \<and>
   map refuris [example_section_y, example_section_x] =
     [[''https://github.com/openedx/myrepo/blob/master/app/y.py#L10''],
      [''https://github.com/openedx/myrepo/blob/master/toggles.py#L2'']]"
proof -
  note r = example_run
  note t = source_link_uri_shape[where quote_value = example_quote_value and rp = example_repr and cfg = example_config and toggles = example_toggles and secs = "[example_section_y, example_section_x]", OF r]
  have e: "map refuris [example_section_y, example_section_x] =
     [[''https://github.com/openedx/myrepo/blob/master/app/y.py#L10''],
      [''https://github.com/openedx/myrepo/blob/master/toggles.py#L2'']]"
    by code_simp
  show ?thesis by (rule conjI[OF r conjI[OF t e]])
qed

section \<open>Optional attributes\<close>

text \<open>
  Claim C7, as the code has it. For the warning and for each of \<open>creation_date\<close>,
  \<open>target_removal_date\<close>, \<open>implementation\<close> and \<open>use_cases\<close>: when the attribute is absent
  from the toggle or holds a sentinel (\<open>None\<close>, \<open>"None"\<close>, \<open>"n/a"\<close>, \<open>"N/A"\<close>), the toggle's
  section has no node for it. The description is not among them: its paragraph is always
  rendered, as the counterexample shows for a toggle with no description.
\<close>

theorem optional_attribute_not_displayed:
  assumes "run quote_value rp cfg toggles = Inr secs"
  shows "list_all2
     (\<lambda>toggle_name sec. \<exists>toggle.
         map_of toggles toggle_name = Some toggle \<and>
         (absent_or_sentinel toggle ''.. toggle_warning:'' \<longrightarrow>
            with_id (''warning-'' @ toggle_name) sec = []) \<and>
         (\<forall>opt \<in> set optional_attrs.
            absent_or_sentinel toggle (toggle_key opt) \<longrightarrow>
              with_id (opt @ ''-'' @ toggle_name) sec = []))
     (sort (map fst toggles)) secs"
proof -
  from assms have "list_all2
     (\<lambda>n s. \<exists>t. map_of toggles n = Some t \<and> toggle_section quote_value rp cfg n t = Inr s)
     (sort (map fst toggles)) secs"
    by (simp add: run_Inr_iff)
  then show ?thesis
  proof (rule list_all2_mono)
    fix n s
    assume "\<exists>t. map_of toggles n = Some t \<and> toggle_section quote_value rp cfg n t = Inr s"
    then obtain t where t: "map_of toggles n = Some t"
      and s: "toggle_section quote_value rp cfg n t = Inr s" by blast
    have "absent_or_sentinel t ''.. toggle_warning:'' \<longrightarrow> with_id (''warning-'' @ n) s = []"
      using with_id_warning[OF s] warning_nodes_Nil_iff[of rp n t] by simp
    moreover have "\<forall>opt \<in> set optional_attrs.
        absent_or_sentinel t (toggle_key opt) \<longrightarrow> with_id (opt @ ''-'' @ n) s = []"
    proof (intro ballI impI)
      fix opt
      assume "opt \<in> set optional_attrs" and "absent_or_sentinel t (toggle_key opt)"
      then show "with_id (opt @ ''-'' @ n) s = []"
        using with_id_optional[OF s, of opt] optional_nodes_Nil_iff[of rp n t opt] by simp
    qed
    ultimately show "\<exists>toggle. map_of toggles n = Some toggle \<and>
         (absent_or_sentinel toggle ''.. toggle_warning:'' \<longrightarrow> with_id (''warning-'' @ n) s = []) \<and>
         (\<forall>opt \<in> set optional_attrs.
            absent_or_sentinel toggle (toggle_key opt) \<longrightarrow> with_id (opt @ ''-'' @ n) s = [])"
      using t by blast
  qed
qed

theorem optional_attribute_not_displayed_witness:
  "run example_quote_value example_repr example_config example_toggles =
     Inr [example_section_y, example_section_x] \<and>
   list_all2
     (\<lambda>toggle_name sec. \<exists>toggle.
         map_of example_toggles toggle_name = Some toggle \<and>
         (absent_or_sentinel toggle ''.. toggle_warning:'' \<longrightarrow>
            with_id (''warning-'' @ toggle_name) sec = []) \<and>
         (\<forall>opt \<in> set optional_attrs.
            absent_or_sentinel toggle (toggle_key opt) \<longrightarrow>
              with_id (opt @ ''-'' @ toggle_name) sec = []))
     (sort (map fst example_toggles)) [example_section_y, example_section_x] \<and>
   absent_or_sentinel toggle_x ''.. toggle_warning:'' \<and>
   with_id ''warning-ENABLE_X'' example_section_x = [] \<and>
   absent_or_sentinel toggle_y (toggle_key ''use_cases'') \<and>
   with_id ''use_cases-DISABLE_Y'' example_section_y = []"
proof -
  note r = example_run
  note t = optional_attribute_not_displayed[where quote_value = example_quote_value and rp = example_repr and cfg = example_config and toggles = example_toggles and secs = "[example_section_y, example_section_x]", OF r]
  have e: "absent_or_sentinel toggle_x ''.. toggle_warning:'' \<and>
   with_id ''warning-ENABLE_X'' example_section_x = [] \<and>
   absent_or_sentinel toggle_y (toggle_key ''use_cases'') \<and>
   with_id ''use_cases-DISABLE_Y'' example_section_y = []"
    by code_simp
  show ?thesis by (rule conjI[OF r conjI[OF t e]])
qed

theorem absent_description_displayed_counterexample:
  "run example_quote_value example_repr example_config example_toggles =
     Inr [example_section_y, example_section_x] \<and>
   toggle_y ''.. toggle_description:'' = None \<and>
   absent_or_sentinel toggle_y ''.. toggle_description:'' \<and>
   with_id ''description-DISABLE_Y'' example_section_y =
     [Element Paragraph [''description-DISABLE_Y''] None [Text ''Desc: NaN'']]"
proof -
  have e: "toggle_y ''.. toggle_description:'' = None \<and>
   absent_or_sentinel toggle_y ''.. toggle_description:'' \<and>
   with_id ''description-DISABLE_Y'' example_section_y =
     [Element Paragraph [''description-DISABLE_Y''] None [Text ''Desc: NaN'']]"
    by code_simp
  show ?thesis by (rule conjI[OF example_run e])
qed

text \<open>
  Claim C10. The description paragraph is in every section, whatever the description is:
  \<open>Desc: NaN\<close> when the toggle has none, and the value itself otherwise, a sentinel included.
  The warning and each of the four optional attributes have no node exactly when the
  attribute is absent or holds a sentinel.
\<close>

theorem description_always_others_exactly_sentinels:
  assumes "run quote_value rp cfg toggles = Inr secs"
  shows "list_all2
     (\<lambda>toggle_name sec. \<exists>toggle.
         map_of toggles toggle_name = Some toggle \<and>
         with_id (''description-'' @ toggle_name) sec =
           [Element Paragraph [''description-'' @ toggle_name] None
              [Text (''Desc: '' @ (case toggle ''.. toggle_description:'' of
                                     None \<Rightarrow> ''NaN'' | Some v \<Rightarrow> py_str rp v))]] \<and>
         (with_id (''warning-'' @ toggle_name) sec = [] \<longleftrightarrow>
            absent_or_sentinel toggle ''.. toggle_warning:'') \<and>
         (\<forall>opt \<in> set optional_attrs.
            with_id (opt @ ''-'' @ toggle_name) sec = [] \<longleftrightarrow>
              absent_or_sentinel toggle (toggle_key opt)))
     (sort (map fst toggles)) secs"
proof -
  from assms have "list_all2
     (\<lambda>n s. \<exists>t. map_of toggles n = Some t \<and> toggle_section quote_value rp cfg n t = Inr s)
     (sort (map fst toggles)) secs"
    by (simp add: run_Inr_iff)
  then show ?thesis
  proof (rule list_all2_mono)
    fix n s
    assume "\<exists>t. map_of toggles n = Some t \<and> toggle_section quote_value rp cfg n t = Inr s"
    then obtain t where t: "map_of toggles n = Some t"
      and s: "toggle_section quote_value rp cfg n t = Inr s" by blast
    have d: "with_id (''description-'' @ n) s =
           [Element Paragraph [''description-'' @ n] None
              [Text (''Desc: '' @ (case t ''.. toggle_description:'' of
                                     None \<Rightarrow> ''NaN'' | Some v \<Rightarrow> py_str rp v))]]"
      using with_id_description[OF s] by (simp add: dict_get_def split: option.splits)
    have w: "with_id (''warning-'' @ n) s = [] \<longleftrightarrow> absent_or_sentinel t ''.. toggle_warning:''"
      using with_id_warning[OF s] warning_nodes_Nil_iff[of rp n t] by simp
    have o: "\<forall>opt \<in> set optional_attrs.
        with_id (opt @ ''-'' @ n) s = [] \<longleftrightarrow> absent_or_sentinel t (toggle_key opt)"
    proof (intro ballI)
      fix opt
      assume "opt \<in> set optional_attrs"
      then show "with_id (opt @ ''-'' @ n) s = [] \<longleftrightarrow> absent_or_sentinel t (toggle_key opt)"
        using with_id_optional[OF s, of opt] optional_nodes_Nil_iff[of rp n t opt] by simp
    qed
    from t d w o show "\<exists>toggle. map_of toggles n = Some toggle \<and>
         with_id (''description-'' @ n) s =
           [Element Paragraph [''description-'' @ n] None
              [Text (''Desc: '' @ (case toggle ''.. toggle_description:'' of
                                     None \<Rightarrow> ''NaN'' | Some v \<Rightarrow> py_str rp v))]] \<and>
         (with_id (''warning-'' @ n) s = [] \<longleftrightarrow> absent_or_sentinel toggle ''.. toggle_warning:'') \<and>
         (\<forall>opt \<in> set optional_attrs.
            with_id (opt @ ''-'' @ n) s = [] \<longleftrightarrow> absent_or_sentinel toggle (toggle_key opt))"
      by blast
  qed
qed

theorem description_always_others_exactly_sentinels_witness:
  "run example_quote_value example_repr example_config example_toggles =
     Inr [example_section_y, example_section_x] \<and>
   list_all2
     (\<lambda>toggle_name sec. \<exists>toggle.
         map_of example_toggles toggle_name = Some toggle \<and>
         with_id (''description-'' @ toggle_name) sec =
           [Element Paragraph [''description-'' @ toggle_name] None
              [Text (''Desc: '' @ (case toggle ''.. toggle_description:'' of
                                     None \<Rightarrow> ''NaN'' | Some v \<Rightarrow> py_str example_repr v))]] \<and>
         (with_id (''warning-'' @ toggle_name) sec = [] \<longleftrightarrow>
            absent_or_sentinel toggle ''.. toggle_warning:'') \<and>
         (\<forall>opt \<in> set optional_attrs.
            with_id (opt @ ''-'' @ toggle_name) sec = [] \<longleftrightarrow>
              absent_or_sentinel toggle (toggle_key opt)))
     (sort (map fst example_toggles)) [example_section_y, example_section_x] \<and>
   with_id ''description-DISABLE_Y'' example_section_y =
     [Element Paragraph [''description-DISABLE_Y''] None [Text ''Desc: NaN'']] \<and>
   with_id ''warning-DISABLE_Y'' example_section_y =
     [Element Warning [''warning-DISABLE_Y''] None [Element Paragraph [] None [Text ''Do not use'']]] \<and>
   with_id ''warning-ENABLE_X'' example_section_x = [] \<and>
   with_id ''use_cases-ENABLE_X'' example_section_x =
     [Element Paragraph [''use_cases-ENABLE_X''] None [Text ''Use Cases: open_edx'']]"
proof -
  note r = example_run
  note t = description_always_others_exactly_sentinels[where quote_value = example_quote_value and rp = example_repr and cfg = example_config and toggles = example_toggles and secs = "[example_section_y, example_section_x]", OF r]
  have e: "with_id ''description-DISABLE_Y'' example_section_y =
     [Element Paragraph [''description-DISABLE_Y''] None [Text ''Desc: NaN'']] \<and>
   with_id ''warning-DISABLE_Y'' example_section_y =
     [Element Warning [''warning-DISABLE_Y''] None [Element Paragraph [] None [Text ''Do not use'']]] \<and>
   with_id ''warning-ENABLE_X'' example_section_x = [] \<and>
   with_id ''use_cases-ENABLE_X'' example_section_x =
     [Element Paragraph [''use_cases-ENABLE_X''] None [Text ''Use Cases: open_edx'']]"
    by code_simp
  show ?thesis by (rule conjI[OF r conjI[OF t e]])
qed

section \<open>One section per toggle, in sorted order\<close>

text \<open>
  Claim C9. When \<open>run\<close> returns, it returns as many nodes as the dictionary has toggles,
  all of them sections, and the section of the k-th name in sorted order is the k-th node.
  The order in which the toggles were put in the dictionary does not matter: two
  dictionaries with the same entries give the same result. \<open>run\<close> returns whenever every
  toggle's section can be built.
\<close>

theorem run_one_section_per_toggle_sorted:
  "(run quote_value rp cfg toggles = Inr secs \<longrightarrow>
      length secs = length toggles \<and>
      map node_kind secs = map (\<lambda>toggle_name. Some Section) (sort (map fst toggles)) \<and>
      map node_ids secs =
        map (\<lambda>toggle_name. [''featuretoggle-'' @ toggle_name]) (sort (map fst toggles))) \<and>
   sorted (sort (map fst toggles)) \<and>
   (distinct (map fst toggles) \<and> mset toggles' = mset toggles \<longrightarrow>
      run quote_value rp cfg toggles' = run quote_value rp cfg toggles) \<and>
   ((\<forall>toggle_name toggle. (toggle_name, toggle) \<in> set toggles \<longrightarrow>
        (\<exists>sec. toggle_section quote_value rp cfg toggle_name toggle = Inr sec)) \<longrightarrow>
      (\<exists>secs'. run quote_value rp cfg toggles = Inr secs'))"
proof (intro conjI impI)
  assume "run quote_value rp cfg toggles = Inr secs"
  then have l: "list_all2
     (\<lambda>n s. \<exists>t. map_of toggles n = Some t \<and> toggle_section quote_value rp cfg n t = Inr s)
     (sort (map fst toggles)) secs"
    by (simp add: run_Inr_iff)
  then have "length (sort (map fst toggles)) = length secs"
    by (rule list_all2_lengthD)
  then show "length secs = length toggles" by simp
  from l have "list_all2 (\<lambda>n s. node_kind s = Some Section) (sort (map fst toggles)) secs"
    by (rule list_all2_mono) (blast dest: section_ids)
  then show "map node_kind secs = map (\<lambda>toggle_name. Some Section) (sort (map fst toggles))"
    by (rule list_all2_map_eq)
  from l have "list_all2 (\<lambda>n s. node_ids s = [''featuretoggle-'' @ n]) (sort (map fst toggles)) secs"
    by (rule list_all2_mono) (blast dest: section_ids)
  then show "map node_ids secs =
        map (\<lambda>toggle_name. [''featuretoggle-'' @ toggle_name]) (sort (map fst toggles))"
    by (rule list_all2_map_eq)
next
  show "sorted (sort (map fst toggles))" by simp
next
  assume a: "distinct (map fst toggles) \<and> mset toggles' = mset toggles"
  then have d: "distinct (map fst toggles)" and m: "mset toggles' = mset toggles"
    by simp_all
  have k: "sort (map fst toggles') = sort (map fst toggles)"
    using m by (rule perm_sort_keys)
  have "map_of toggles' = map_of toggles"
    using m d by (rule perm_map_of)
  then have "iter_nodes quote_value rp cfg toggles' (sort (map fst toggles)) =
      iter_nodes quote_value rp cfg toggles (sort (map fst toggles))"
    by (rule iter_nodes_cong)
  then show "run quote_value rp cfg toggles' = run quote_value rp cfg toggles"
    unfolding run_def k .
next
  assume a: "\<forall>toggle_name toggle. (toggle_name, toggle) \<in> set toggles \<longrightarrow>
        (\<exists>sec. toggle_section quote_value rp cfg toggle_name toggle = Inr sec)"
  show "\<exists>secs'. run quote_value rp cfg toggles = Inr secs'"
  proof (rule run_total)
    fix n t
    assume "(n, t) \<in> set toggles"
    with a show "\<exists>s. toggle_section quote_value rp cfg n t = Inr s"
      by (elim allE[of _ n] allE[of _ t] impE) assumption+
  qed
qed

theorem run_one_section_per_toggle_sorted_witness:
  "run example_quote_value example_repr example_config example_toggles =
     Inr [example_section_y, example_section_x] \<and>
   (length [example_section_y, example_section_x] = length example_toggles \<and>
    map node_kind [example_section_y, example_section_x] =
      map (\<lambda>toggle_name. Some Section) (sort (map fst example_toggles)) \<and>
    map node_ids [example_section_y, example_section_x] =
      map (\<lambda>toggle_name. [''featuretoggle-'' @ toggle_name]) (sort (map fst example_toggles))) \<and>
   (distinct (map fst example_toggles) \<and> mset (rev example_toggles) = mset example_toggles) \<and>
   run example_quote_value example_repr example_config (rev example_toggles) =
     run example_quote_value example_repr example_config example_toggles \<and>
   map fst example_toggles = [''ENABLE_X'', ''DISABLE_Y''] \<and>
   sort (map fst example_toggles) = [''DISABLE_Y'', ''ENABLE_X'']"
proof -
  note r = example_run
  note t = run_one_section_per_toggle_sorted[where quote_value = example_quote_value and rp = example_repr and cfg = example_config and toggles = example_toggles and secs = "[example_section_y, example_section_x]" and toggles' = "rev example_toggles"]
  note a = mp[OF conjunct1[OF t] r]
  have h: "distinct (map fst example_toggles) \<and> mset (rev example_toggles) = mset example_toggles"
    by (simp add: example_toggles_def)
  note b = mp[OF conjunct1[OF conjunct2[OF conjunct2[OF t]]] h]
  have e: "map fst example_toggles = [''ENABLE_X'', ''DISABLE_Y''] \<and>
   sort (map fst example_toggles) = [''DISABLE_Y'', ''ENABLE_X'']"
    by (simp add: example_toggles_def)
  show ?thesis by (rule conjI[OF r conjI[OF a conjI[OF h conjI[OF b e]]]])
qed

section \<open>Lemmas on the assembler\<close>

lemma map_fst_map_entry: "map fst (AList.map_entry k f xs) = map fst xs"
  by (induction xs) auto

lemma keys_step:
  "map fst (records (step cfg st a)) =
     (if is_name cfg a \<and> map_of (records st) (raw_value a) = None
      then map fst (records st) @ [raw_value a] else map fst (records st))"
  by (simp add: step_def map_fst_map_entry split: option.splits asm_state.splits)

lemma lookup_step:
  "map_of (records (step cfg st a)) X =
     (if is_name cfg a then
        (case map_of (records st) X of
           Some r \<Rightarrow> Some r
         | None \<Rightarrow> if raw_value a = X then Some (new_record a) else None)
      else if state st = InRecord X then map_option (fold_attr cfg a) (map_of (records st) X)
      else map_of (records st) X)"
  by (auto simp: step_def AList.map_of_map_entry map_add_def
      split: option.splits asm_state.splits)

lemma state_step:
  "state (step cfg st a) =
     (if is_name cfg a then
        (if map_of (records st) (raw_value a) = None then InRecord (raw_value a) else InDuplicate)
      else state st)"
  by (simp add: step_def split: option.splits asm_state.splits)

lemma diagnostics_step:
  "diagnostics (step cfg st a) = diagnostics st @
     (if is_name cfg a then
        (case map_of (records st) (raw_value a) of
           Some first \<Rightarrow>
             [DuplicateName (raw_value a) (src_file a, src_line a) (prov_file first, prov_line first)]
         | None \<Rightarrow> [])
      else if state st = AwaitingName then [OrphanAttribute a] else [])"
  by (simp add: step_def split: option.splits asm_state.splits)

lemma step_core:
  "state st = state st' \<Longrightarrow> records st = records st' \<Longrightarrow>
   state (step cfg st a) = state (step cfg st' a) \<and>
   records (step cfg st a) = records (step cfg st' a)"
  by (simp add: step_def split: option.splits asm_state.splits)

lemma frozen_record:
  "map_of (records st) X = Some r \<Longrightarrow> state st \<noteq> InRecord X \<Longrightarrow>
   map_of (records (foldl (step cfg) st s)) X = Some r \<and>
   state (foldl (step cfg) st s) \<noteq> InRecord X"
proof (induction s arbitrary: st)
  case Nil
  then show ?case by simp
next
  case (Cons a s)
  have 1: "map_of (records (step cfg st a)) X = Some r"
    using Cons.prems by (simp add: lookup_step)
  have 2: "state (step cfg st a) \<noteq> InRecord X"
    using Cons.prems by (auto simp: state_step)
  show ?case using Cons.IH[OF 1 2] by simp
qed

lemma attr_block:
  "\<forall>b\<in>set blk. \<not> is_name cfg b \<Longrightarrow> state st = InRecord X \<Longrightarrow>
   map_of (records st) X = Some r \<Longrightarrow>
   state (foldl (step cfg) st blk) = InRecord X \<and>
   map_of (records (foldl (step cfg) st blk)) X = Some (foldl (\<lambda>r b. fold_attr cfg b r) r blk) \<and>
   diagnostics (foldl (step cfg) st blk) = diagnostics st \<and>
   map fst (records (foldl (step cfg) st blk)) = map fst (records st)"
proof (induction blk arbitrary: st r)
  case Nil
  then show ?case by simp
next
  case (Cons b blk)
  have n: "\<not> is_name cfg b" and rest: "\<forall>b\<in>set blk. \<not> is_name cfg b"
    using Cons.prems(1) by simp_all
  have 1: "state (step cfg st b) = InRecord X"
    using n Cons.prems(2) by (simp add: state_step)
  have 2: "map_of (records (step cfg st b)) X = Some (fold_attr cfg b r)"
    using n Cons.prems(2,3) by (simp add: lookup_step)
  have 3: "diagnostics (step cfg st b) = diagnostics st"
    using n Cons.prems(2) by (simp add: diagnostics_step)
  have 4: "map fst (records (step cfg st b)) = map fst (records st)"
    using n by (simp add: keys_step)
  show ?case using Cons.IH[OF rest 1 2] 3 4 by simp
qed

lemma values_of_snoc:
  "values_of t (blk @ [b]) = values_of t blk @ (if tag b = t then [raw_value b] else [])"
  by (simp add: values_of_def)

lemma attrs_fold_attr:
  "map_of (attrs (fold_attr cfg b r)) t =
     (if tag b = t
      then Some (if is_multi cfg t then Many (prior_values r t @ [raw_value b]) else One (raw_value b))
      else map_of (attrs r) t)"
  by (auto simp: fold_attr_def update_conv')

lemma attrs_fold:
  "map_of (attrs (foldl (\<lambda>r b. fold_attr cfg b r) r blk)) t =
     (case values_of t blk of
        [] \<Rightarrow> map_of (attrs r) t
      | v # vs \<Rightarrow> Some (if is_multi cfg t then Many (prior_values r t @ v # vs)
                        else One (last (v # vs))))"
proof (induction blk rule: rev_induct)
  case Nil
  then show ?case by (simp add: values_of_def)
next
  case (snoc b blk)
  show ?case
    using snoc.IH
    by (simp add: values_of_snoc attrs_fold_attr prior_values_def split: list.splits)
qed

lemma provenance_fold:
  "rec_name (foldl (\<lambda>r b. fold_attr cfg b r) r blk) = rec_name r \<and>
   prov_file (foldl (\<lambda>r b. fold_attr cfg b r) r blk) = prov_file r \<and>
   prov_line (foldl (\<lambda>r b. fold_attr cfg b r) r blk) = prov_line r"
  by (induction blk rule: rev_induct) (simp_all add: fold_attr_def)

lemma block_record:
  "map_of (attrs (foldl (\<lambda>r b. fold_attr cfg b r) (new_record a) blk)) t = expected_attr cfg blk t"
  by (simp add: attrs_fold expected_attr_def new_record_def prior_values_def split: list.splits)

lemma keys_foldl:
  "distinct (map fst (records st) @ name_values cfg s) \<Longrightarrow>
   map fst (records (foldl (step cfg) st s)) = map fst (records st) @ name_values cfg s"
proof (induction s arbitrary: st)
  case Nil
  then show ?case by (simp add: name_values_def)
next
  case (Cons a s)
  show ?case
  proof (cases "is_name cfg a")
    case True
    have nv: "name_values cfg (a # s) = raw_value a # name_values cfg s"
      using True by (simp add: name_values_def)
    have "raw_value a \<notin> fst ` set (records st)"
      using Cons.prems unfolding nv by auto
    hence none: "map_of (records st) (raw_value a) = None"
      by (simp add: map_of_eq_None_iff)
    have k: "map fst (records (step cfg st a)) = map fst (records st) @ [raw_value a]"
      using True none by (simp add: keys_step)
    have d: "distinct (map fst (records (step cfg st a)) @ name_values cfg s)"
      using Cons.prems unfolding nv k by auto
    show ?thesis using Cons.IH[OF d] k nv by simp
  next
    case False
    have nv: "name_values cfg (a # s) = name_values cfg s"
      using False by (simp add: name_values_def)
    have k: "map fst (records (step cfg st a)) = map fst (records st)"
      using False by (simp add: keys_step)
    have d: "distinct (map fst (records (step cfg st a)) @ name_values cfg s)"
      using Cons.prems unfolding nv k by auto
    show ?thesis using Cons.IH[OF d] k nv by simp
  qed
qed

lemma keys_set_foldl:
  "set (map fst (records (foldl (step cfg) st s))) =
     set (map fst (records st)) \<union> set (name_values cfg s)"
proof (induction s arbitrary: st)
  case Nil
  then show ?case by (simp add: name_values_def)
next
  case (Cons a s)
  have "set (map fst (records (step cfg st a))) \<union> set (name_values cfg s) =
        set (map fst (records st)) \<union> set (name_values cfg (a # s))"
    by (auto simp: keys_step name_values_def map_of_eq_None_iff)
  then show ?case using Cons.IH[of "step cfg st a"] by simp
qed

lemma keys_distinct_foldl:
  "distinct (map fst (records st)) \<Longrightarrow> distinct (map fst (records (foldl (step cfg) st s)))"
proof (induction s arbitrary: st)
  case Nil
  then show ?case by simp
next
  case (Cons a s)
  have "distinct (map fst (records (step cfg st a)))"
    using Cons.prems by (auto simp: keys_step map_of_eq_None_iff)
  then show ?case using Cons.IH by simp
qed

lemma no_diagnostics:
  "distinct (map fst (records st) @ name_values cfg s) \<Longrightarrow> state st \<noteq> AwaitingName \<Longrightarrow>
   diagnostics (foldl (step cfg) st s) = diagnostics st"
proof (induction s arbitrary: st)
  case Nil
  then show ?case by simp
next
  case (Cons a s)
  have none: "is_name cfg a \<Longrightarrow> map_of (records st) (raw_value a) = None"
    using Cons.prems(1) by (auto simp: name_values_def map_of_eq_None_iff)
  have 1: "diagnostics (step cfg st a) = diagnostics st"
    using none Cons.prems(2) by (simp add: diagnostics_step)
  have 2: "state (step cfg st a) \<noteq> AwaitingName"
    using Cons.prems(2) by (simp add: state_step)
  have 3: "distinct (map fst (records (step cfg st a)) @ name_values cfg s)"
  proof (cases "is_name cfg a")
    case True
    then show ?thesis using Cons.prems(1) none by (auto simp: keys_step name_values_def)
  next
    case False
    then show ?thesis using Cons.prems(1) by (auto simp: keys_step name_values_def)
  qed
  show ?case using Cons.IH[OF 3 2] 1 by simp
qed

lemma well_formed_no_diagnostics:
  "well_formed cfg s \<Longrightarrow> diagnostics (foldl (step cfg) initial s) = []"
proof (cases s)
  case Nil
  then show ?thesis by (simp add: initial_def)
next
  case (Cons a s')
  assume w: "well_formed cfg s"
  have n: "is_name cfg a" using w Cons by (simp add: well_formed_def)
  have d: "distinct (raw_value a # name_values cfg s')"
    using w Cons n by (simp add: well_formed_def name_values_def)
  have 1: "diagnostics (step cfg initial a) = []"
    using n by (simp add: diagnostics_step initial_def)
  have 2: "state (step cfg initial a) \<noteq> AwaitingName"
    using n by (simp add: state_step)
  have 3: "distinct (map fst (records (step cfg initial a)) @ name_values cfg s')"
    using n d by (simp add: keys_step initial_def)
  show ?thesis using no_diagnostics[OF 3 2] 1 Cons by simp
qed

lemma dup_absent:
  "map_of (records st) X = None \<Longrightarrow> \<forall>a\<in>set s. \<not> (is_name cfg a \<and> raw_value a = X) \<Longrightarrow>
   map_of (records (foldl (step cfg) st s)) X = None \<and>
   filter (is_duplicate_of X) (diagnostics (foldl (step cfg) st s)) =
     filter (is_duplicate_of X) (diagnostics st)"
proof (induction s arbitrary: st)
  case Nil
  then show ?case by simp
next
  case (Cons a s)
  have na: "\<not> (is_name cfg a \<and> raw_value a = X)" and rest: "\<forall>a\<in>set s. \<not> (is_name cfg a \<and> raw_value a = X)"
    using Cons.prems(2) by simp_all
  have 1: "map_of (records (step cfg st a)) X = None"
    using na Cons.prems(1) by (auto simp: lookup_step)
  have 2: "filter (is_duplicate_of X) (diagnostics (step cfg st a)) =
           filter (is_duplicate_of X) (diagnostics st)"
    using na by (auto simp: diagnostics_step is_duplicate_of_def split: option.splits)
  show ?case using Cons.IH[OF 1 rest] 2 by simp
qed

lemma dup_present:
  "map_of (records st) X = Some r \<Longrightarrow> prov_file r = f \<Longrightarrow> prov_line r = l \<Longrightarrow>
   filter (is_duplicate_of X) (diagnostics (foldl (step cfg) st s)) =
     filter (is_duplicate_of X) (diagnostics st) @
     map (\<lambda>a. DuplicateName X (src_file a, src_line a) (f, l))
       (filter (\<lambda>a. is_name cfg a \<and> raw_value a = X) s)"
proof (induction s arbitrary: st r)
  case Nil
  then show ?case by simp
next
  case (Cons a s)
  have "\<exists>r'. map_of (records (step cfg st a)) X = Some r' \<and> prov_file r' = f \<and> prov_line r' = l"
    using Cons.prems by (simp add: lookup_step fold_attr_def)
  then obtain r' where 1: "map_of (records (step cfg st a)) X = Some r'"
    and 2: "prov_file r' = f" and 3: "prov_line r' = l"
    by blast
  have 4: "filter (is_duplicate_of X) (diagnostics (step cfg st a)) =
           filter (is_duplicate_of X) (diagnostics st) @
           (if is_name cfg a \<and> raw_value a = X
            then [DuplicateName X (src_file a, src_line a) (f, l)] else [])"
    using Cons.prems by (auto simp: diagnostics_step is_duplicate_of_def split: option.splits)
  show ?case using Cons.IH[OF 1 2 3] 4 by simp
qed

lemma open_block:
  assumes pre: "\<forall>b\<in>set pre. \<not> (is_name cfg b \<and> raw_value b = X)"
    and a: "is_name cfg a" "raw_value a = X"
    and blk: "\<forall>b\<in>set blk. \<not> is_name cfg b"
  shows "state (foldl (step cfg) initial (pre @ a # blk)) = InRecord X \<and>
         map_of (records (foldl (step cfg) initial (pre @ a # blk))) X =
           Some (foldl (\<lambda>r b. fold_attr cfg b r) (new_record a) blk) \<and>
         filter (is_duplicate_of X) (diagnostics (foldl (step cfg) initial (pre @ a # blk))) = []"
proof -
  define st1 where "st1 = foldl (step cfg) initial pre"
  define st2 where "st2 = step cfg st1 a"
  have i: "map_of (records initial) X = None" by (simp add: initial_def)
  have 1: "map_of (records st1) X = None"
    "filter (is_duplicate_of X) (diagnostics st1) = []"
    unfolding st1_def using dup_absent[OF i pre] by (simp_all add: initial_def)
  have 2: "state st2 = InRecord X" "map_of (records st2) X = Some (new_record a)"
    unfolding st2_def using 1 a by (simp_all add: state_step lookup_step)
  have 3: "diagnostics st2 = diagnostics st1"
    unfolding st2_def using 1 a by (simp add: diagnostics_step)
  have e: "foldl (step cfg) initial (pre @ a # blk) = foldl (step cfg) st2 blk"
    by (simp add: st1_def st2_def)
  show ?thesis unfolding e using attr_block[OF blk 2] 3 1(2) by simp
qed

lemma first_block:
  assumes pre: "\<forall>b\<in>set pre. \<not> (is_name cfg b \<and> raw_value b = X)"
    and a: "is_name cfg a" "raw_value a = X"
    and blk: "\<forall>b\<in>set blk. \<not> is_name cfg b"
    and post: "case post of [] \<Rightarrow> True | n # _ \<Rightarrow> is_name cfg n"
  shows "map_of (records (foldl (step cfg) initial (pre @ a # blk @ post))) X =
           Some (foldl (\<lambda>r b. fold_attr cfg b r) (new_record a) blk)"
proof -
  define st3 where "st3 = foldl (step cfg) initial (pre @ a # blk)"
  define r where "r = foldl (\<lambda>r b. fold_attr cfg b r) (new_record a) blk"
  have 3: "state st3 = InRecord X" "map_of (records st3) X = Some r"
    unfolding st3_def r_def using open_block[OF pre a blk] by simp_all
  have e: "foldl (step cfg) initial (pre @ a # blk @ post) = foldl (step cfg) st3 post"
    by (simp add: st3_def)
  show ?thesis
  proof (cases post)
    case Nil
    then show ?thesis using e 3 r_def by simp
  next
    case (Cons n post')
    have n: "is_name cfg n" using post Cons by simp
    have 4: "map_of (records (step cfg st3 n)) X = Some r"
      using n 3 by (simp add: lookup_step)
    have 5: "state (step cfg st3 n) \<noteq> InRecord X"
      using n 3 by (auto simp: state_step)
    show ?thesis using frozen_record[OF 4 5, of cfg post'] e Cons r_def by simp
  qed
qed

lemma distinct_keys_filter:
  "distinct (map fst xs) \<Longrightarrow> map_of xs k = Some v \<Longrightarrow> filter (\<lambda>p. fst p = k) xs = [(k, v)]"
proof (induction xs)
  case Nil
  then show ?case by simp
next
  case (Cons x xs)
  show ?case
  proof (cases "fst x = k")
    case True
    have "k \<notin> fst ` set xs" using Cons.prems(1) True by auto
    hence "\<forall>p\<in>set xs. fst p \<noteq> k" by auto
    hence "filter (\<lambda>p. fst p = k) xs = []" by (simp add: filter_empty_conv)
    then show ?thesis using True Cons.prems(2) by (cases x) simp
  next
    case False
    then show ?thesis using Cons by (cases x) auto
  qed
qed

lemma awaiting_prefix:
  "\<forall>b\<in>set pre. \<not> is_name cfg b \<Longrightarrow> state st = AwaitingName \<Longrightarrow>
   state (foldl (step cfg) st pre) = AwaitingName \<and>
   records (foldl (step cfg) st pre) = records st \<and>
   diagnostics (foldl (step cfg) st pre) = diagnostics st @ map OrphanAttribute pre"
proof (induction pre arbitrary: st)
  case Nil
  then show ?case by simp
next
  case (Cons b pre)
  have n: "\<not> is_name cfg b" and rest: "\<forall>b\<in>set pre. \<not> is_name cfg b"
    using Cons.prems(1) by simp_all
  have 1: "state (step cfg st b) = AwaitingName"
    using n Cons.prems(2) by (simp add: state_step)
  have 2: "records (step cfg st b) = records st"
    using n Cons.prems(2) by (simp add: step_def)
  have 3: "diagnostics (step cfg st b) = diagnostics st @ [OrphanAttribute b]"
    using n Cons.prems(2) by (simp add: diagnostics_step)
  show ?case using Cons.IH[OF rest 1] 2 3 by simp
qed

lemma core_foldl:
  "state st = state st' \<Longrightarrow> records st = records st' \<Longrightarrow>
   state (foldl (step cfg) st s) = state (foldl (step cfg) st' s) \<and>
   records (foldl (step cfg) st s) = records (foldl (step cfg) st' s)"
proof (induction s arbitrary: st st')
  case Nil
  then show ?case by simp
next
  case (Cons a s)
  note c = step_core[OF Cons.prems, of cfg a]
  show ?case using Cons.IH[OF conjunct1[OF c] conjunct2[OF c]] by simp
qed

lemma no_orphans_after_name:
  "state st \<noteq> AwaitingName \<Longrightarrow>
   filter is_orphan (diagnostics (foldl (step cfg) st s)) = filter is_orphan (diagnostics st)"
proof (induction s arbitrary: st)
  case Nil
  then show ?case by simp
next
  case (Cons a s)
  have 1: "state (step cfg st a) \<noteq> AwaitingName"
    using Cons.prems by (simp add: state_step)
  have 2: "filter is_orphan (diagnostics (step cfg st a)) = filter is_orphan (diagnostics st)"
    using Cons.prems by (simp add: diagnostics_step is_orphan_def split: option.splits)
  show ?case using Cons.IH[OF 1] 2 by simp
qed

lemma orphans_foldl:
  "state st = AwaitingName \<Longrightarrow>
   filter is_orphan (diagnostics (foldl (step cfg) st s)) =
     filter is_orphan (diagnostics st) @ map OrphanAttribute (takeWhile (\<lambda>b. \<not> is_name cfg b) s)"
proof (induction s arbitrary: st)
  case Nil
  then show ?case by simp
next
  case (Cons a s)
  show ?case
  proof (cases "is_name cfg a")
    case True
    have 1: "state (step cfg st a) \<noteq> AwaitingName"
      using True by (simp add: state_step)
    have 2: "filter is_orphan (diagnostics (step cfg st a)) = filter is_orphan (diagnostics st)"
      using True by (simp add: diagnostics_step is_orphan_def split: option.splits)
    show ?thesis using no_orphans_after_name[OF 1, of cfg s] 2 True by simp
  next
    case False
    have 1: "state (step cfg st a) = AwaitingName"
      using False Cons.prems by (simp add: state_step)
    have 2: "diagnostics (step cfg st a) = diagnostics st @ [OrphanAttribute a]"
      using False Cons.prems by (simp add: diagnostics_step)
    show ?thesis using Cons.IH[OF 1] 2 False by (simp add: is_orphan_def)
  qed
qed

lemma fst_assemble: "fst (assemble cfg s) = records (foldl (step cfg) initial s)"
  by (simp add: assemble_def Let_def)

lemma snd_assemble: "snd (assemble cfg s) = diagnostics (foldl (step cfg) initial s)"
  by (simp add: assemble_def Let_def)

lemma assemble_keys_distinct: "distinct (map fst (fst (assemble cfg s)))"
  unfolding fst_assemble by (rule keys_distinct_foldl) (simp add: initial_def)

lemma assemble_keys_set: "set (map fst (fst (assemble cfg s))) = set (name_values cfg s)"
  unfolding fst_assemble keys_set_foldl by (simp add: initial_def)

lemma assemble_record:
  assumes "map_of (fst (assemble cfg s)) X = Some (foldl (\<lambda>r b. fold_attr cfg b r) (new_record a) blk)"
    and "raw_value a = X"
  shows "\<exists>r. filter (\<lambda>p. fst p = X) (fst (assemble cfg s)) = [(X, r)] \<and>
             rec_name r = X \<and> prov_file r = src_file a \<and> prov_line r = src_line a \<and>
             (\<forall>t. map_of (attrs r) t = expected_attr cfg blk t)"
proof -
  define r where "r = foldl (\<lambda>r b. fold_attr cfg b r) (new_record a) blk"
  have 1: "filter (\<lambda>p. fst p = X) (fst (assemble cfg s)) = [(X, r)]"
    using assms(1) unfolding r_def by (rule distinct_keys_filter[OF assemble_keys_distinct])
  have 2: "rec_name r = X \<and> prov_file r = src_file a \<and> prov_line r = src_line a"
    unfolding r_def using assms(2) by (simp add: provenance_fold new_record_def)
  have 3: "\<forall>t. map_of (attrs r) t = expected_attr cfg blk t"
    unfolding r_def by (simp add: block_record)
  show ?thesis using 1 2 3 by blast
qed

lemma set_update_subset: "set (AList.update k v xs) \<subseteq> insert (k, v) (set xs)"
  by (induction xs) auto

lemma set_map_entry:
  "p \<in> set (AList.map_entry k f xs) \<Longrightarrow> p \<in> set xs \<or> (\<exists>v. (k, v) \<in> set xs \<and> p = (k, f v))"
  by (induction xs) (auto split: if_splits)

lemma prior_values_subset: "set (prior_values r t) \<subseteq> set (record_values r)"
proof (cases "map_of (attrs r) t")
  case None
  then show ?thesis by (simp add: prior_values_def)
next
  case (Some v)
  hence m: "(t, v) \<in> set (attrs r)" by (rule map_of_SomeD)
  show ?thesis
  proof (cases v)
    case (One x)
    then show ?thesis using Some by (simp add: prior_values_def)
  next
    case (Many vs)
    have "set vs \<subseteq> set (record_values r)"
      using m Many by (force simp: record_values_def values_in_def)
    then show ?thesis using Some Many by (simp add: prior_values_def)
  qed
qed

lemma record_values_fold_attr:
  "set (record_values (fold_attr cfg a r)) \<subseteq> insert (raw_value a) (set (record_values r))"
proof
  fix x
  assume "x \<in> set (record_values (fold_attr cfg a r))"
  then obtain p where p: "p \<in> set (attrs (fold_attr cfg a r))" and x: "x \<in> set (values_in (snd p))"
    by (auto simp: record_values_def)
  define v where "v = (if is_multi cfg (tag a) then Many (prior_values r (tag a) @ [raw_value a])
                       else One (raw_value a))"
  have "p \<in> insert (tag a, v) (set (attrs r))"
    using p set_update_subset[of "tag a" v "attrs r"] by (auto simp: fold_attr_def v_def)
  then show "x \<in> insert (raw_value a) (set (record_values r))"
  proof
    assume "p = (tag a, v)"
    hence "x \<in> insert (raw_value a) (set (prior_values r (tag a)))"
      using x by (auto simp: v_def values_in_def split: if_splits)
    then show ?thesis using prior_values_subset[of r "tag a"] by auto
  next
    assume "p \<in> set (attrs r)"
    hence "x \<in> set (record_values r)" using x by (auto simp: record_values_def)
    then show ?thesis by simp
  qed
qed

lemma values_step:
  assumes inv: "\<forall>p\<in>set (records st). set (record_values (snd p)) \<subseteq> V"
    and a: "\<not> is_name cfg a \<longrightarrow> raw_value a \<in> V"
  shows "\<forall>p\<in>set (records (step cfg st a)). set (record_values (snd p)) \<subseteq> V"
proof (cases "is_name cfg a")
  case True
  have n: "record_values (new_record a) = []"
    by (simp add: record_values_def new_record_def)
  show ?thesis
  proof (cases "map_of (records st) (raw_value a)")
    case None
    then show ?thesis using True inv n by (simp add: step_def)
  next
    case (Some first)
    then show ?thesis using True inv by (simp add: step_def)
  qed
next
  case False
  show ?thesis
  proof (cases "state st")
    case AwaitingName
    then show ?thesis using False inv by (simp add: step_def)
  next
    case InDuplicate
    then show ?thesis using False inv by (simp add: step_def)
  next
    case (InRecord n)
    have r: "records (step cfg st a) = AList.map_entry n (fold_attr cfg a) (records st)"
      using False InRecord by (simp add: step_def)
    show ?thesis
    proof
      fix p
      assume "p \<in> set (records (step cfg st a))"
      hence "p \<in> set (records st) \<or> (\<exists>v. (n, v) \<in> set (records st) \<and> p = (n, fold_attr cfg a v))"
        unfolding r by (rule set_map_entry)
      then show "set (record_values (snd p)) \<subseteq> V"
      proof
        assume "p \<in> set (records st)"
        then show ?thesis using inv by simp
      next
        assume "\<exists>v. (n, v) \<in> set (records st) \<and> p = (n, fold_attr cfg a v)"
        then obtain v where v: "(n, v) \<in> set (records st)" and pv: "p = (n, fold_attr cfg a v)"
          by blast
        have "set (record_values v) \<subseteq> V" using inv v by force
        then show ?thesis using record_values_fold_attr[of cfg a v] a False pv by auto
      qed
    qed
  qed
qed

lemma values_foldl:
  "\<forall>p\<in>set (records st). set (record_values (snd p)) \<subseteq> V \<Longrightarrow>
   \<forall>b\<in>set s. \<not> is_name cfg b \<longrightarrow> raw_value b \<in> V \<Longrightarrow>
   \<forall>p\<in>set (records (foldl (step cfg) st s)). set (record_values (snd p)) \<subseteq> V"
proof (induction s arbitrary: st)
  case Nil
  then show ?case by simp
next
  case (Cons a s)
  have a: "\<not> is_name cfg a \<longrightarrow> raw_value a \<in> V" and rest: "\<forall>b\<in>set s. \<not> is_name cfg b \<longrightarrow> raw_value b \<in> V"
    using Cons.prems(2) by simp_all
  show ?case using Cons.IH[OF values_step[OF Cons.prems(1) a] rest] by simp
qed

lemma assemble_values:
  "\<forall>p\<in>set (fst (assemble cfg s)). set (record_values (snd p)) \<subseteq> set (attribute_values cfg s)"
  unfolding fst_assemble
  by (rule values_foldl) (auto simp: initial_def attribute_values_def)

lemma first_name_tag_record:
  assumes f: "from_name cfg X s = a # rest"
  shows "map_of (fst (assemble cfg s)) X =
           Some (foldl (\<lambda>r b. fold_attr cfg b r) (new_record a) (block_of cfg X s))"
proof -
  define pre where "pre = takeWhile (\<lambda>b. \<not> names_entity cfg X b) s"
  define blk where "blk = takeWhile (\<lambda>b. \<not> is_name cfg b) rest"
  define post where "post = dropWhile (\<lambda>b. \<not> is_name cfg b) rest"
  have "s = pre @ dropWhile (\<lambda>b. \<not> names_entity cfg X b) s"
    unfolding pre_def by simp
  hence s: "s = pre @ a # blk @ post"
    using f unfolding from_name_def blk_def post_def by simp
  have a: "is_name cfg a" "raw_value a = X"
    using f by (simp_all add: from_name_def dropWhile_eq_Cons_conv names_entity_def)
  have p: "\<forall>b\<in>set pre. \<not> (is_name cfg b \<and> raw_value b = X)"
  proof
    fix b
    assume "b \<in> set pre"
    hence "\<not> names_entity cfg X b" unfolding pre_def by (auto dest: set_takeWhileD)
    then show "\<not> (is_name cfg b \<and> raw_value b = X)" by (simp add: names_entity_def)
  qed
  have b: "\<forall>b\<in>set blk. \<not> is_name cfg b"
  proof
    fix b
    assume "b \<in> set blk"
    then show "\<not> is_name cfg b" unfolding blk_def by (auto dest: set_takeWhileD)
  qed
  have po: "case post of [] \<Rightarrow> True | n # _ \<Rightarrow> is_name cfg n"
  proof (cases post)
    case Nil
    then show ?thesis by simp
  next
    case (Cons n post')
    hence "is_name cfg n" unfolding post_def by (simp add: dropWhile_eq_Cons_conv)
    then show ?thesis using Cons by simp
  qed
  have bo: "block_of cfg X s = blk"
    by (simp add: block_of_def f blk_def)
  have "map_of (records (foldl (step cfg) initial (pre @ a # blk @ post))) X =
          Some (foldl (\<lambda>r b. fold_attr cfg b r) (new_record a) blk)"
    using p a b po by (rule first_block)
  then show ?thesis unfolding fst_assemble bo s[symmetric] .
qed

lemma from_name_first:
  assumes "filter (names_entity cfg X) s = a # dups"
  shows "\<exists>rest. from_name cfg X s = a # rest"
proof -
  obtain us vs where s: "s = us @ a # vs" and u: "\<forall>u\<in>set us. \<not> names_entity cfg X u"
    and a: "names_entity cfg X a"
    using assms unfolding filter_eq_Cons_iff by blast
  have "dropWhile (\<lambda>b. \<not> names_entity cfg X b) (us @ a # vs) =
        dropWhile (\<lambda>b. \<not> names_entity cfg X b) (a # vs)"
    using u by (simp add: dropWhile_append2)
  then show ?thesis using a unfolding from_name_def s by simp
qed

lemma duplicate_diagnostics:
  "filter (is_duplicate_of X) (snd (assemble cfg s)) =
     (case filter (names_entity cfg X) s of
        [] \<Rightarrow> []
      | a # dups \<Rightarrow>
          map (\<lambda>d. DuplicateName X (src_file d, src_line d) (src_file a, src_line a)) dups)"
proof (cases "filter (names_entity cfg X) s")
  case Nil
  hence n: "\<forall>a\<in>set s. \<not> (is_name cfg a \<and> raw_value a = X)"
    by (simp add: filter_empty_conv names_entity_def)
  have i: "map_of (records initial) X = None" by (simp add: initial_def)
  show ?thesis unfolding snd_assemble using dup_absent[OF i n] Nil by (simp add: initial_def)
next
  case (Cons a dups)
  obtain us vs where s: "s = us @ a # vs" and u: "\<forall>u\<in>set us. \<not> names_entity cfg X u"
    and a: "names_entity cfg X a" and d: "dups = filter (names_entity cfg X) vs"
    using Cons unfolding filter_eq_Cons_iff by blast
  have u': "\<forall>b\<in>set us. \<not> (is_name cfg b \<and> raw_value b = X)"
    using u by (simp add: names_entity_def)
  have a': "is_name cfg a" "raw_value a = X" using a by (simp_all add: names_entity_def)
  have no: "\<forall>b\<in>set []. \<not> is_name cfg b" by simp
  define st where "st = foldl (step cfg) initial (us @ a # [])"
  have o: "map_of (records st) X = Some (new_record a)"
    "filter (is_duplicate_of X) (diagnostics st) = []"
    unfolding st_def using open_block[OF u' a' no] by simp_all
  have e: "foldl (step cfg) initial s = foldl (step cfg) st vs"
    unfolding s st_def by simp
  have ne: "names_entity cfg X = (\<lambda>b. is_name cfg b \<and> raw_value b = X)"
    by (rule ext) (simp add: names_entity_def)
  have "filter (is_duplicate_of X) (diagnostics (foldl (step cfg) st vs)) =
          map (\<lambda>d. DuplicateName X (src_file d, src_line d) (src_file a, src_line a)) dups"
    using dup_present[OF o(1) refl refl, of cfg vs] o(2) d ne by (simp add: new_record_def)
  then show ?thesis unfolding snd_assemble e using Cons by simp
qed

section \<open>Assembling well-formed input\<close>

text \<open>
  Claim C1. On a well-formed stream (it does not start with an attribute tag, and no name occurs
  twice) the assembler reports nothing and returns exactly one record per name tag, in stream
  order. The record of a name tag has that tag's name and place, and for every tag it holds
  what the attribute tuples between the name tag and the next name tag (or the end of the
  stream) give: the last value of a single-value tag, all the values of a multi-value tag in
  stream order, and nothing for a tag that does not occur there.
\<close>

theorem assemble_well_formed:
  assumes "well_formed cfg s"
  shows "snd (assemble cfg s) = [] \<and>
         map fst (fst (assemble cfg s)) = name_values cfg s \<and>
         distinct (map fst (fst (assemble cfg s))) \<and>
         (\<forall>a\<in>set s. is_name cfg a \<longrightarrow>
            (\<exists>r. filter (\<lambda>p. fst p = raw_value a) (fst (assemble cfg s)) = [(raw_value a, r)] \<and>
                 rec_name r = raw_value a \<and> prov_file r = src_file a \<and> prov_line r = src_line a \<and>
                 (\<forall>t. map_of (attrs r) t = expected_attr cfg (block_of cfg (raw_value a) s) t)))"
proof -
  have d: "distinct (name_values cfg s)" using assms by (simp add: well_formed_def)
  have 1: "snd (assemble cfg s) = []"
    unfolding snd_assemble using assms by (rule well_formed_no_diagnostics)
  have 2: "map fst (fst (assemble cfg s)) = name_values cfg s"
    unfolding fst_assemble using keys_foldl[of initial cfg s] d by (simp add: initial_def)
  have 3: "\<exists>r. filter (\<lambda>p. fst p = raw_value a) (fst (assemble cfg s)) = [(raw_value a, r)] \<and>
                 rec_name r = raw_value a \<and> prov_file r = src_file a \<and> prov_line r = src_line a \<and>
                 (\<forall>t. map_of (attrs r) t = expected_attr cfg (block_of cfg (raw_value a) s) t)"
    if m: "a \<in> set s" and a: "is_name cfg a" for a
  proof -
    have "a \<in> set (filter (names_entity cfg (raw_value a)) s)"
      using m a by (simp add: names_entity_def)
    then obtain a' dups where f: "filter (names_entity cfg (raw_value a)) s = a' # dups"
      by (cases "filter (names_entity cfg (raw_value a)) s") auto
    have "a' \<in> set (filter (names_entity cfg (raw_value a)) s)" unfolding f by simp
    hence a': "a' \<in> set s" "is_name cfg a'" "raw_value a' = raw_value a"
      by (simp_all add: names_entity_def)
    have "inj_on raw_value (set (filter (is_name cfg) s))"
      using d unfolding name_values_def by (simp add: distinct_map)
    moreover have "a \<in> set (filter (is_name cfg) s)" "a' \<in> set (filter (is_name cfg) s)"
      using m a a' by simp_all
    ultimately have "a' = a" using a'(3) by (auto dest: inj_onD)
    then obtain rest where "from_name cfg (raw_value a) s = a # rest"
      using from_name_first[OF f] by blast
    hence "map_of (fst (assemble cfg s)) (raw_value a) =
            Some (foldl (\<lambda>r b. fold_attr cfg b r) (new_record a) (block_of cfg (raw_value a) s))"
      by (rule first_name_tag_record)
    then show ?thesis using refl by (rule assemble_record)
  qed
  show ?thesis using 1 2 d 3 by simp
qed

theorem assemble_well_formed_witness:
  "well_formed example_grammar well_formed_stream \<and>
   snd (assemble example_grammar well_formed_stream) = [] \<and>
   map fst (fst (assemble example_grammar well_formed_stream)) = [''ENABLE_X'', ''DISABLE_Y''] \<and>
   (\<exists>r. filter (\<lambda>p. fst p = ''ENABLE_X'') (fst (assemble example_grammar well_formed_stream)) =
           [(''ENABLE_X'', r)] \<and>
        rec_name r = ''ENABLE_X'' \<and> prov_file r = ''toggles.py'' \<and> prov_line r = 2 \<and>
        map_of (attrs r) ''.. toggle_default:'' = Some (One ''True'') \<and>
        map_of (attrs r) ''.. toggle_description:'' = Some (One ''enables X'') \<and>
        map_of (attrs r) ''.. toggle_use_cases:'' = Some (Many [''open_edx'', ''incremental_release'']) \<and>
        map_of (attrs r) ''.. toggle_warning:'' = None)"
proof -
  define a where "a = annotation ''.. toggle_name:'' ''ENABLE_X'' 2"
  have w: "well_formed example_grammar well_formed_stream" by code_simp
  note t = assemble_well_formed[OF w]
  have n: "name_values example_grammar well_formed_stream = [''ENABLE_X'', ''DISABLE_Y'']"
    by code_simp
  have m: "a \<in> set well_formed_stream" unfolding a_def well_formed_stream_def by simp
  have i: "is_name example_grammar a" unfolding a_def by code_simp
  have v: "raw_value a = ''ENABLE_X''" "src_file a = ''toggles.py''" "src_line a = 2"
    unfolding a_def by (simp_all add: annotation_def)
  have e: "expected_attr example_grammar (block_of example_grammar ''ENABLE_X'' well_formed_stream)
             ''.. toggle_default:'' = Some (One ''True'') \<and>
           expected_attr example_grammar (block_of example_grammar ''ENABLE_X'' well_formed_stream)
             ''.. toggle_description:'' = Some (One ''enables X'') \<and>
           expected_attr example_grammar (block_of example_grammar ''ENABLE_X'' well_formed_stream)
             ''.. toggle_use_cases:'' = Some (Many [''open_edx'', ''incremental_release'']) \<and>
           expected_attr example_grammar (block_of example_grammar ''ENABLE_X'' well_formed_stream)
             ''.. toggle_warning:'' = None"
    by code_simp
  have 1: "snd (assemble example_grammar well_formed_stream) = []"
    by (rule conjunct1[OF t])
  have 2: "map fst (fst (assemble example_grammar well_formed_stream)) = [''ENABLE_X'', ''DISABLE_Y'']"
    using conjunct1[OF conjunct2[OF t]] n by simp
  obtain r where r: "filter (\<lambda>p. fst p = raw_value a) (fst (assemble example_grammar well_formed_stream)) =
           [(raw_value a, r)]" "rec_name r = raw_value a" "prov_file r = src_file a"
      "prov_line r = src_line a"
      "\<forall>t. map_of (attrs r) t =
         expected_attr example_grammar (block_of example_grammar (raw_value a) well_formed_stream) t"
    using bspec[OF conjunct2[OF conjunct2[OF conjunct2[OF t]]] m] i by blast
  have 3: "\<exists>r. filter (\<lambda>p. fst p = ''ENABLE_X'') (fst (assemble example_grammar well_formed_stream)) =
           [(''ENABLE_X'', r)] \<and>
        rec_name r = ''ENABLE_X'' \<and> prov_file r = ''toggles.py'' \<and> prov_line r = 2 \<and>
        map_of (attrs r) ''.. toggle_default:'' = Some (One ''True'') \<and>
        map_of (attrs r) ''.. toggle_description:'' = Some (One ''enables X'') \<and>
        map_of (attrs r) ''.. toggle_use_cases:'' = Some (Many [''open_edx'', ''incremental_release'']) \<and>
        map_of (attrs r) ''.. toggle_warning:'' = None"
    using r e unfolding v by (intro exI[of _ r]) simp
  show ?thesis by (rule conjI[OF w conjI[OF 1 conjI[OF 2 3]]])
qed

section \<open>A duplicate name\<close>

text \<open>
  Claim C2. When exactly two name tags of a stream carry the name \<open>X\<close>, the diagnostics hold
  exactly one \<open>DuplicateName\<close> for \<open>X\<close>, with the name, the place of the second name tag and
  the place of the first. The mapping holds exactly one record for \<open>X\<close>; its provenance is the
  first name tag's and its values are those of the attribute tuples between the first name tag
  and the next name tag, so nothing that follows the duplicate reaches it. The pass goes on to
  the end of the stream: every name of the stream has its record.
\<close>

theorem duplicate_name_first_wins:
  assumes "filter (names_entity cfg X) s = [a1, a2]"
  shows "filter (is_duplicate_of X) (snd (assemble cfg s)) =
           [DuplicateName X (src_file a2, src_line a2) (src_file a1, src_line a1)] \<and>
         (\<exists>r. filter (\<lambda>p. fst p = X) (fst (assemble cfg s)) = [(X, r)] \<and>
              rec_name r = X \<and> prov_file r = src_file a1 \<and> prov_line r = src_line a1 \<and>
              (\<forall>t. map_of (attrs r) t = expected_attr cfg (block_of cfg X s) t)) \<and>
         set (map fst (fst (assemble cfg s))) = set (name_values cfg s)"
proof -
  have 1: "filter (is_duplicate_of X) (snd (assemble cfg s)) =
           [DuplicateName X (src_file a2, src_line a2) (src_file a1, src_line a1)]"
    unfolding duplicate_diagnostics assms by simp
  have "a1 \<in> set (filter (names_entity cfg X) s)" unfolding assms by simp
  hence x: "raw_value a1 = X" by (simp add: names_entity_def)
  obtain rest where "from_name cfg X s = a1 # rest"
    using from_name_first[OF assms] by blast
  hence "map_of (fst (assemble cfg s)) X =
            Some (foldl (\<lambda>r b. fold_attr cfg b r) (new_record a1) (block_of cfg X s))"
    by (rule first_name_tag_record)
  hence 2: "\<exists>r. filter (\<lambda>p. fst p = X) (fst (assemble cfg s)) = [(X, r)] \<and>
              rec_name r = X \<and> prov_file r = src_file a1 \<and> prov_line r = src_line a1 \<and>
              (\<forall>t. map_of (attrs r) t = expected_attr cfg (block_of cfg X s) t)"
    using x by (rule assemble_record)
  show ?thesis using 1 2 assemble_keys_set[of cfg s] by blast
qed

theorem duplicate_name_first_wins_witness:
  "filter (names_entity example_grammar ''ENABLE_X'') duplicate_stream =
     [annotation ''.. toggle_name:'' ''ENABLE_X'' 2, annotation ''.. toggle_name:'' ''ENABLE_X'' 10] \<and>
   filter (is_duplicate_of ''ENABLE_X'') (snd (assemble example_grammar duplicate_stream)) =
     [DuplicateName ''ENABLE_X'' (''toggles.py'', 10) (''toggles.py'', 2)] \<and>
   (\<exists>r. filter (\<lambda>p. fst p = ''ENABLE_X'') (fst (assemble example_grammar duplicate_stream)) =
           [(''ENABLE_X'', r)] \<and>
        rec_name r = ''ENABLE_X'' \<and> prov_file r = ''toggles.py'' \<and> prov_line r = 2 \<and>
        map_of (attrs r) ''.. toggle_default:'' = Some (One ''False'') \<and>
        map_of (attrs r) ''.. toggle_description:'' = Some (One ''enables X'')) \<and>
   set (map fst (fst (assemble example_grammar duplicate_stream))) = {''ENABLE_X'', ''DISABLE_Y''} \<and>
   snd (assemble example_grammar duplicate_stream) =
     [DuplicateName ''ENABLE_X'' (''toggles.py'', 10) (''toggles.py'', 2)]"
proof -
  have h: "filter (names_entity example_grammar ''ENABLE_X'') duplicate_stream =
     [annotation ''.. toggle_name:'' ''ENABLE_X'' 2, annotation ''.. toggle_name:'' ''ENABLE_X'' 10]"
    by code_simp
  note t = duplicate_name_first_wins[OF h]
  have 1: "filter (is_duplicate_of ''ENABLE_X'') (snd (assemble example_grammar duplicate_stream)) =
     [DuplicateName ''ENABLE_X'' (''toggles.py'', 10) (''toggles.py'', 2)]"
    using conjunct1[OF t] by (simp add: annotation_def)
  have e: "expected_attr example_grammar (block_of example_grammar ''ENABLE_X'' duplicate_stream)
             ''.. toggle_default:'' = Some (One ''False'') \<and>
           expected_attr example_grammar (block_of example_grammar ''ENABLE_X'' duplicate_stream)
             ''.. toggle_description:'' = Some (One ''enables X'')"
    by code_simp
  obtain r where r: "filter (\<lambda>p. fst p = ''ENABLE_X'') (fst (assemble example_grammar duplicate_stream)) =
           [(''ENABLE_X'', r)]" "rec_name r = ''ENABLE_X''"
      "prov_file r = src_file (annotation ''.. toggle_name:'' ''ENABLE_X'' 2)"
      "prov_line r = src_line (annotation ''.. toggle_name:'' ''ENABLE_X'' 2)"
      "\<forall>t. map_of (attrs r) t =
         expected_attr example_grammar (block_of example_grammar ''ENABLE_X'' duplicate_stream) t"
    using conjunct1[OF conjunct2[OF t]] by blast
  have 2: "\<exists>r. filter (\<lambda>p. fst p = ''ENABLE_X'') (fst (assemble example_grammar duplicate_stream)) =
           [(''ENABLE_X'', r)] \<and>
        rec_name r = ''ENABLE_X'' \<and> prov_file r = ''toggles.py'' \<and> prov_line r = 2 \<and>
        map_of (attrs r) ''.. toggle_default:'' = Some (One ''False'') \<and>
        map_of (attrs r) ''.. toggle_description:'' = Some (One ''enables X'')"
    using r e by (intro exI[of _ r]) (simp add: annotation_def)
  have n: "set (name_values example_grammar duplicate_stream) = {''ENABLE_X'', ''DISABLE_Y''}"
    by code_simp
  have 3: "set (map fst (fst (assemble example_grammar duplicate_stream))) = {''ENABLE_X'', ''DISABLE_Y''}"
    using conjunct2[OF conjunct2[OF t]] n by simp
  have 4: "snd (assemble example_grammar duplicate_stream) =
     [DuplicateName ''ENABLE_X'' (''toggles.py'', 10) (''toggles.py'', 2)]"
    by code_simp
  show ?thesis by (rule conjI[OF h conjI[OF 1 conjI[OF 2 conjI[OF 3 4]]]])
qed

section \<open>An orphan attribute\<close>

text \<open>
  Claim C3. Let an attribute tuple \<open>a\<close> stand before any name tag. The orphan diagnostics are
  then exactly one for each attribute tuple before the first name tag, in stream order, so
  \<open>a\<close> is reported, and reported once (the tuples of a stream differ, each having its own
  line). No record gains its value: the mapping is the one assembled from the rest of the stream
  alone, and every value a record holds is the value of an attribute tuple that follows \<open>a\<close>;
  a record holds the text of \<open>a\<close> only where a later tuple carries the same text. The pass
  goes on: every name tag that follows has its record.
\<close>

theorem orphan_attribute_reported:
  assumes pre: "\<forall>b\<in>set pre. \<not> is_name cfg b" and a: "\<not> is_name cfg a"
  shows "filter is_orphan (snd (assemble cfg (pre @ a # post))) =
           map OrphanAttribute (pre @ a # takeWhile (\<lambda>b. \<not> is_name cfg b) post) \<and>
         (distinct (pre @ a # post) \<longrightarrow>
            count_list (snd (assemble cfg (pre @ a # post))) (OrphanAttribute a) = 1) \<and>
         fst (assemble cfg (pre @ a # post)) = fst (assemble cfg post) \<and>
         (\<forall>p\<in>set (fst (assemble cfg (pre @ a # post))).
            set (record_values (snd p)) \<subseteq> set (attribute_values cfg post)) \<and>
         (raw_value a \<notin> set (attribute_values cfg post) \<longrightarrow>
            (\<forall>p\<in>set (fst (assemble cfg (pre @ a # post))).
               raw_value a \<notin> set (record_values (snd p)))) \<and>
         set (map fst (fst (assemble cfg (pre @ a # post)))) = set (name_values cfg post)"
proof -
  have pa: "\<forall>b\<in>set (pre @ [a]). \<not> is_name cfg b" using pre a by simp
  have t: "takeWhile (\<lambda>b. \<not> is_name cfg b) (pre @ a # post) =
           pre @ a # takeWhile (\<lambda>b. \<not> is_name cfg b) post"
    using pre a by (simp add: takeWhile_append2)
  have 1: "filter is_orphan (snd (assemble cfg (pre @ a # post))) =
           map OrphanAttribute (pre @ a # takeWhile (\<lambda>b. \<not> is_name cfg b) post)"
    unfolding snd_assemble using orphans_foldl[of initial cfg "pre @ a # post"] t
    by (simp add: initial_def)
  have c: "count_list ds d = count_list (filter is_orphan ds) d" if "is_orphan d" for ds d
    using that by (induction ds) auto
  have m: "count_list (map OrphanAttribute xs) (OrphanAttribute a) = count_list xs a" for xs
    by (induction xs) auto
  have 2: "count_list (snd (assemble cfg (pre @ a # post))) (OrphanAttribute a) = 1"
    if d: "distinct (pre @ a # post)"
  proof -
    have "distinct (pre @ a # takeWhile (\<lambda>b. \<not> is_name cfg b) post)"
      using d set_takeWhileD[of _ "\<lambda>b. \<not> is_name cfg b" post] by auto
    hence "count_list (pre @ a # takeWhile (\<lambda>b. \<not> is_name cfg b) post) a = 1"
      by (simp add: count_list_0_iff)
    then show ?thesis
      using c[of "OrphanAttribute a" "snd (assemble cfg (pre @ a # post))"] 1 m
      by (simp add: is_orphan_def)
  qed
  define st where "st = foldl (step cfg) initial (pre @ [a])"
  have aw: "state st = state initial \<and> records st = records initial"
    unfolding st_def using awaiting_prefix[OF pa, of initial] by (simp add: initial_def)
  have e: "foldl (step cfg) initial (pre @ a # post) = foldl (step cfg) st post"
    unfolding st_def by simp
  have 3: "fst (assemble cfg (pre @ a # post)) = fst (assemble cfg post)"
    unfolding fst_assemble e using core_foldl[OF conjunct1[OF aw] conjunct2[OF aw], of cfg post]
    by simp
  have 4: "\<forall>p\<in>set (fst (assemble cfg (pre @ a # post))).
            set (record_values (snd p)) \<subseteq> set (attribute_values cfg post)"
    unfolding 3 by (rule assemble_values)
  have 5: "set (map fst (fst (assemble cfg (pre @ a # post)))) = set (name_values cfg post)"
    unfolding 3 by (rule assemble_keys_set)
  have 6: "\<forall>p\<in>set (fst (assemble cfg (pre @ a # post))).
             raw_value a \<notin> set (record_values (snd p))"
    if "raw_value a \<notin> set (attribute_values cfg post)"
    using 4 that by blast
  show ?thesis using 1 2 3 4 5 6 by blast
qed

theorem orphan_attribute_reported_witness:
  "\<not> is_name example_grammar (annotation ''.. toggle_default:'' ''True'' 1) \<and>
   snd (assemble example_grammar (annotation ''.. toggle_default:'' ''True'' 1 # named_stream)) =
     [OrphanAttribute (annotation ''.. toggle_default:'' ''True'' 1)] \<and>
   filter is_orphan
       (snd (assemble example_grammar (annotation ''.. toggle_default:'' ''True'' 1 # named_stream))) =
     [OrphanAttribute (annotation ''.. toggle_default:'' ''True'' 1)] \<and>
   count_list (snd (assemble example_grammar (annotation ''.. toggle_default:'' ''True'' 1 # named_stream)))
     (OrphanAttribute (annotation ''.. toggle_default:'' ''True'' 1)) = 1 \<and>
   fst (assemble example_grammar (annotation ''.. toggle_default:'' ''True'' 1 # named_stream)) =
     fst (assemble example_grammar named_stream) \<and>
   set (map fst (fst (assemble example_grammar (annotation ''.. toggle_default:'' ''True'' 1 # named_stream)))) =
     {''ENABLE_X''} \<and>
   ''True'' \<notin> set (attribute_values example_grammar named_stream) \<and>
   ''True'' \<notin> set (concat (map (\<lambda>p. record_values (snd p))
       (fst (assemble example_grammar (annotation ''.. toggle_default:'' ''True'' 1 # named_stream))))) \<and>
   map (\<lambda>p. record_values (snd p))
       (fst (assemble example_grammar (annotation ''.. toggle_default:'' ''True'' 1 # named_stream))) =
     [[''False'']]"
proof -
  define a where "a = annotation ''.. toggle_default:'' ''True'' 1"
  have h1: "\<forall>b\<in>set []. \<not> is_name example_grammar b" by simp
  have h2: "\<not> is_name example_grammar a" unfolding a_def by code_simp
  note t = orphan_attribute_reported[OF h1 h2, of named_stream]
  have d: "distinct ([] @ a # named_stream)" unfolding a_def by code_simp
  have k: "takeWhile (\<lambda>b. \<not> is_name example_grammar b) named_stream = []" by code_simp
  have n: "set (name_values example_grammar named_stream) = {''ENABLE_X''}" by code_simp
  have 0: "snd (assemble example_grammar (a # named_stream)) = [OrphanAttribute a]"
    unfolding a_def by code_simp
  have 1: "filter is_orphan (snd (assemble example_grammar (a # named_stream))) = [OrphanAttribute a]"
    using conjunct1[OF t] k by simp
  have 2: "count_list (snd (assemble example_grammar (a # named_stream))) (OrphanAttribute a) = 1"
    using mp[OF conjunct1[OF conjunct2[OF t]] d] by simp
  have 3: "fst (assemble example_grammar (a # named_stream)) = fst (assemble example_grammar named_stream)"
    using conjunct1[OF conjunct2[OF conjunct2[OF t]]] by simp
  have 4: "set (map fst (fst (assemble example_grammar (a # named_stream)))) = {''ENABLE_X''}"
    using conjunct2[OF conjunct2[OF conjunct2[OF conjunct2[OF conjunct2[OF t]]]]] n by simp
  have v: "raw_value a = ''True''" unfolding a_def by (simp add: annotation_def)
  have 6: "''True'' \<notin> set (attribute_values example_grammar named_stream)" by code_simp
  have 7: "''True'' \<notin> set (concat (map (\<lambda>p. record_values (snd p))
              (fst (assemble example_grammar (a # named_stream)))))"
    using mp[OF conjunct1[OF conjunct2[OF conjunct2[OF conjunct2[OF conjunct2[OF t]]]]]] 6
    unfolding v by auto
  have 5: "map (\<lambda>p. record_values (snd p)) (fst (assemble example_grammar (a # named_stream))) =
             [[''False'']]"
    unfolding a_def by code_simp
  show ?thesis
    unfolding a_def[symmetric]
    by (rule conjI[OF h2 conjI[OF 0 conjI[OF 1 conjI[OF 2 conjI[OF 3 conjI[OF 4 conjI[OF 6 conjI[OF 7 5]]]]]]]])
qed

end
